theory Spec2Isabelle
  imports Main "HOL-Library.Word" "HOL-Library.AList"
begin

unbundle bit_operations_syntax

declare upt_rec_numeral [simp del]

section \<open>Entity identifiers and signatures (Entity.h, Signature.h)\<close>

text \<open>
  \<^verbatim>\<open>using Entity = uint32_t\<close>, \<^verbatim>\<open>NULL_ENTITY = 0\<close>, \<^verbatim>\<open>MAX_ENTITIES = 4096\<close>;
  \<^verbatim>\<open>using Signature = std::bitset <64>\<close>, \<^verbatim>\<open>using ComponentBit = std::size_t\<close>.
\<close>

type_synonym Entity = "32 word"
type_synonym Signature = "64 word"
type_synonym ComponentBit = nat

definition NULL_ENTITY :: Entity where
  "NULL_ENTITY = 0"

definition MAX_ENTITIES :: Entity where
  "MAX_ENTITIES = 4096"

definition MAX_COMPONENTS :: nat where
  "MAX_COMPONENTS = 64"

text \<open>
  How a call can stop: a failed \<^verbatim>\<open>assert\<close> (assertions are taken as compiled in, that is
  without \<^verbatim>\<open>NDEBUG\<close>), the \<^verbatim>\<open>std::out_of_range\<close> that
  \<^verbatim>\<open>std::bitset::set\<close> and \<^verbatim>\<open>reset\<close> throw for a position beyond the width, and
  behaviour the C++ standard leaves undefined (an index outside a vector, \<^verbatim>\<open>front\<close> or
  \<^verbatim>\<open>pop_back\<close> on an empty container, a null system pointer). A call that stops
  returns the error and no state.
\<close>

datatype error = AssertionFailed | OutOfRange | UndefinedBehaviour

text \<open>\<^verbatim>\<open>bitset::set (pos)\<close>, \<^verbatim>\<open>bitset::reset (pos)\<close>, \<^verbatim>\<open>bitset::any ()\<close>.\<close>

definition sig_set :: "Signature \<Rightarrow> nat \<Rightarrow> error + Signature" where
  "sig_set s pos = (if pos < MAX_COMPONENTS then Inr (set_bit pos s) else Inl OutOfRange)"

definition sig_reset :: "Signature \<Rightarrow> nat \<Rightarrow> error + Signature" where
  "sig_reset s pos = (if pos < MAX_COMPONENTS then Inr (unset_bit pos s) else Inl OutOfRange)"

definition sig_any :: "Signature \<Rightarrow> bool" where
  "sig_any s = (s \<noteq> 0)"

section \<open>EntityManager (EntityManager.h)\<close>

text \<open>
  The FIFO queue of free ids is a list with its front at the head. The signature array
  is read and written only behind the range assertion on its index, so it is a function
  of the entity id.
\<close>

record EntityManager =
  availableIds :: "Entity list"
  signatures :: "Entity \<Rightarrow> Signature"
  livingCount :: "32 word"

definition entity_in_range :: "Entity \<Rightarrow> bool" where
  "entity_in_range entity = (entity > NULL_ENTITY \<and> entity \<le> MAX_ENTITIES)"

definition getSignature :: "EntityManager \<Rightarrow> Entity \<Rightarrow> error + Signature" where
  "getSignature em entity =
     (if entity_in_range entity then Inr (signatures em entity) else Inl AssertionFailed)"

definition getLivingCount :: "EntityManager \<Rightarrow> 32 word" where
  "getLivingCount em = livingCount em"

definition setSignature :: "EntityManager \<Rightarrow> Entity \<Rightarrow> Signature \<Rightarrow> error + EntityManager" where
  "setSignature em entity sg =
     (if entity_in_range entity
      then Inr (em\<lparr>signatures := (signatures em)(entity := sg)\<rparr>)
      else Inl AssertionFailed)"

text \<open>
  The constructor's loop \<^verbatim>\<open>for (Entity e = 1; e <= MAX_ENTITIES; ++e) availableIds.push (e)\<close>.
\<close>

function fill_ids :: "Entity \<Rightarrow> Entity list \<Rightarrow> Entity list" where
  "fill_ids e q = (if e \<le> MAX_ENTITIES then fill_ids (e + 1) (q @ [e]) else q)"
  by pat_completeness auto
termination
proof (relation "measure (\<lambda>(e, q). 4097 - unat e)")
  show "wf (measure (\<lambda>(e, q). 4097 - unat e))" by simp
next
  fix e :: Entity and q :: "Entity list"
  assume le: "e \<le> MAX_ENTITIES"
  then have "unat e \<le> 4096"
    by (simp add: MAX_ENTITIES_def word_le_nat_alt)
  moreover from this have "unat (e + 1) = unat e + 1"
    by (simp add: unat_word_ariths)
  ultimately show "((e + 1, q @ [e]), (e, q)) \<in> measure (\<lambda>(e, q). 4097 - unat e)"
    by simp
qed

declare fill_ids.simps [simp del]

definition EntityManager_new :: EntityManager where
  "EntityManager_new =
     \<lparr>availableIds = fill_ids 1 [], signatures = (\<lambda>_. 0), livingCount = 0\<rparr>"

definition EntityManager_createEntity :: "EntityManager \<Rightarrow> error + (Entity \<times> EntityManager)" where
  "EntityManager_createEntity em =
     (if \<not> livingCount em < MAX_ENTITIES then Inl AssertionFailed
      else case availableIds em of
        [] \<Rightarrow> Inl UndefinedBehaviour
      | ident # rest \<Rightarrow>
          Inr (ident, em\<lparr>availableIds := rest, livingCount := livingCount em + 1\<rparr>))"

definition EntityManager_destroyEntity :: "EntityManager \<Rightarrow> Entity \<Rightarrow> error + EntityManager" where
  "EntityManager_destroyEntity em entity =
     (if entity_in_range entity
      then Inr (em\<lparr>signatures := (signatures em)(entity := 0),
                   availableIds := availableIds em @ [entity],
                   livingCount := livingCount em - 1\<rparr>)
      else Inl AssertionFailed)"

section \<open>ComponentArray (ComponentArray.h)\<close>

text \<open>
  The dense vector of component values, the \<^verbatim>\<open>unordered_map\<close> from entity to dense index
  and the vector from dense index to entity. Dense indices are \<^verbatim>\<open>std::size_t\<close>; the one
  place where that type can wrap, \<^verbatim>\<open>components.size () - 1\<close> on an empty vector, is
  written out below.
\<close>

record 'v ComponentArray =
  components :: "'v list"
  entityToIndex :: "Entity \<rightharpoonup> nat"
  indexToEntity :: "Entity list"

definition ComponentArray_new :: "'v ComponentArray" where
  "ComponentArray_new = \<lparr>components = [], entityToIndex = Map.empty, indexToEntity = []\<rparr>"

definition ComponentArray_get :: "'v ComponentArray \<Rightarrow> Entity \<Rightarrow> error + 'v" where
  "ComponentArray_get a entity =
     (case entityToIndex a entity of
        None \<Rightarrow> Inl AssertionFailed
      | Some i \<Rightarrow> if i < length (components a) then Inr (components a ! i)
                  else Inl UndefinedBehaviour)"

definition ComponentArray_has :: "'v ComponentArray \<Rightarrow> Entity \<Rightarrow> bool" where
  "ComponentArray_has a entity = (entityToIndex a entity \<noteq> None)"

definition ComponentArray_size :: "'v ComponentArray \<Rightarrow> nat" where
  "ComponentArray_size a = length (components a)"

definition ComponentArray_insert ::
  "'v ComponentArray \<Rightarrow> Entity \<Rightarrow> 'v \<Rightarrow> error + 'v ComponentArray" where
  "ComponentArray_insert a entity component =
     (if entityToIndex a entity \<noteq> None then Inl AssertionFailed
      else let newIndex = length (components a)
           in Inr \<lparr>components = components a @ [component],
                   entityToIndex = (entityToIndex a)(entity \<mapsto> newIndex),
                   indexToEntity = indexToEntity a @ [entity]\<rparr>)"

text \<open>
  \<^verbatim>\<open>remove\<close>: the assertion, the swap with the last slot when the removed slot is another
  one, then the two \<^verbatim>\<open>pop_back\<close> and the \<^verbatim>\<open>erase\<close>. On an empty \<^verbatim>\<open>components\<close> vector
  \<^verbatim>\<open>size () - 1\<close> is the largest \<^verbatim>\<open>size_t\<close> and either branch then indexes or pops an
  empty vector.
\<close>

definition ComponentArray_remove :: "'v ComponentArray \<Rightarrow> Entity \<Rightarrow> error + 'v ComponentArray" where
  "ComponentArray_remove a entity =
     (case entityToIndex a entity of
        None \<Rightarrow> Inl AssertionFailed
      | Some removedIndex \<Rightarrow>
          if components a = [] then Inl UndefinedBehaviour
          else
            let lastIndex = length (components a) - 1;
                moved =
                  (if removedIndex \<noteq> lastIndex then
                     if removedIndex < length (components a)
                        \<and> lastIndex < length (indexToEntity a)
                        \<and> removedIndex < length (indexToEntity a)
                     then
                       let lastEntity = indexToEntity a ! lastIndex
                       in Inr (a\<lparr>components := (components a)[removedIndex := components a ! lastIndex],
                                 entityToIndex := (entityToIndex a)(lastEntity \<mapsto> removedIndex),
                                 indexToEntity := (indexToEntity a)[removedIndex := lastEntity]\<rparr>)
                     else Inl UndefinedBehaviour
                   else Inr a)
            in case moved of
                 Inl err \<Rightarrow> Inl err
               | Inr b \<Rightarrow>
                   if indexToEntity b = [] then Inl UndefinedBehaviour
                   else Inr (b\<lparr>components := butlast (components b),
                               indexToEntity := butlast (indexToEntity b),
                               entityToIndex := (entityToIndex b)(entity := None)\<rparr>))"

definition ComponentArray_entityDestroyed ::
  "'v ComponentArray \<Rightarrow> Entity \<Rightarrow> error + 'v ComponentArray" where
  "ComponentArray_entityDestroyed a entity =
     (if entityToIndex a entity \<noteq> None then ComponentArray_remove a entity else Inr a)"

section \<open>ComponentManager (ComponentManager.h)\<close>

text \<open>
  Component types are keys of an arbitrary type \<open>'k\<close> (the \<^verbatim>\<open>std::type_index\<close> of the
  template argument) and component values have one type \<open>'v\<close> (a sum of the record
  types in use). \<^verbatim>\<open>typeToArray\<close> is iterated by \<^verbatim>\<open>entityDestroyed\<close>, so it is an
  association list with one entry per key.
\<close>

record ('k, 'v) ComponentManager =
  typeToBit :: "'k \<rightharpoonup> ComponentBit"
  typeToArray :: "('k \<times> 'v ComponentArray) list"
  nextBit :: ComponentBit

definition ComponentManager_new :: "('k, 'v) ComponentManager" where
  "ComponentManager_new = \<lparr>typeToBit = Map.empty, typeToArray = [], nextBit = 0\<rparr>"

definition getBit :: "('k, 'v) ComponentManager \<Rightarrow> 'k \<Rightarrow> error + ComponentBit" where
  "getBit cm ti =
     (case typeToBit cm ti of None \<Rightarrow> Inl AssertionFailed | Some b \<Rightarrow> Inr b)"

definition getComponentArray ::
  "('k, 'v) ComponentManager \<Rightarrow> 'k \<Rightarrow> error + 'v ComponentArray" where
  "getComponentArray cm ti =
     (case map_of (typeToArray cm) ti of None \<Rightarrow> Inl AssertionFailed | Some a \<Rightarrow> Inr a)"

definition ComponentManager_getComponent ::
  "('k, 'v) ComponentManager \<Rightarrow> 'k \<Rightarrow> Entity \<Rightarrow> error + 'v" where
  "ComponentManager_getComponent cm ti entity =
     (case getComponentArray cm ti of
        Inl err \<Rightarrow> Inl err
      | Inr a \<Rightarrow> ComponentArray_get a entity)"

definition ComponentManager_hasComponent ::
  "('k, 'v) ComponentManager \<Rightarrow> 'k \<Rightarrow> Entity \<Rightarrow> error + bool" where
  "ComponentManager_hasComponent cm ti entity =
     (case getComponentArray cm ti of
        Inl err \<Rightarrow> Inl err
      | Inr a \<Rightarrow> Inr (ComponentArray_has a entity))"

definition ComponentManager_registerComponent ::
  "('k, 'v) ComponentManager \<Rightarrow> 'k \<Rightarrow> error + ('k, 'v) ComponentManager" where
  "ComponentManager_registerComponent cm ti =
     (if typeToBit cm ti \<noteq> None then Inl AssertionFailed
      else Inr \<lparr>typeToBit = (typeToBit cm)(ti \<mapsto> nextBit cm),
                typeToArray = AList.update ti ComponentArray_new (typeToArray cm),
                nextBit = nextBit cm + 1\<rparr>)"

definition ComponentManager_addComponent ::
  "('k, 'v) ComponentManager \<Rightarrow> 'k \<Rightarrow> Entity \<Rightarrow> 'v \<Rightarrow> error + ('k, 'v) ComponentManager" where
  "ComponentManager_addComponent cm ti entity component =
     (case getComponentArray cm ti of
        Inl err \<Rightarrow> Inl err
      | Inr a \<Rightarrow>
          (case ComponentArray_insert a entity component of
             Inl err \<Rightarrow> Inl err
           | Inr a' \<Rightarrow> Inr (cm\<lparr>typeToArray := AList.update ti a' (typeToArray cm)\<rparr>)))"

definition ComponentManager_removeComponent ::
  "('k, 'v) ComponentManager \<Rightarrow> 'k \<Rightarrow> Entity \<Rightarrow> error + ('k, 'v) ComponentManager" where
  "ComponentManager_removeComponent cm ti entity =
     (case getComponentArray cm ti of
        Inl err \<Rightarrow> Inl err
      | Inr a \<Rightarrow>
          (case ComponentArray_remove a entity of
             Inl err \<Rightarrow> Inl err
           | Inr a' \<Rightarrow> Inr (cm\<lparr>typeToArray := AList.update ti a' (typeToArray cm)\<rparr>)))"

text \<open>The loop of \<^verbatim>\<open>entityDestroyed\<close> over every registered array.\<close>

fun arrays_entityDestroyed ::
  "('k \<times> 'v ComponentArray) list \<Rightarrow> Entity \<Rightarrow> error + ('k \<times> 'v ComponentArray) list" where
  "arrays_entityDestroyed [] entity = Inr []"
| "arrays_entityDestroyed ((ti, a) # rest) entity =
     (case ComponentArray_entityDestroyed a entity of
        Inl err \<Rightarrow> Inl err
      | Inr a' \<Rightarrow>
          (case arrays_entityDestroyed rest entity of
             Inl err \<Rightarrow> Inl err
           | Inr rest' \<Rightarrow> Inr ((ti, a') # rest')))"

definition ComponentManager_entityDestroyed ::
  "('k, 'v) ComponentManager \<Rightarrow> Entity \<Rightarrow> error + ('k, 'v) ComponentManager" where
  "ComponentManager_entityDestroyed cm entity =
     (case arrays_entityDestroyed (typeToArray cm) entity of
        Inl err \<Rightarrow> Inl err
      | Inr arrs \<Rightarrow> Inr (cm\<lparr>typeToArray := arrs\<rparr>))"

section \<open>System and World (System.h, World.h, World.cpp)\<close>

text \<open>
  A system object: the fields of the base class, and \<open>hook\<close> for the derived class whose
  \<^verbatim>\<open>update\<close> it runs. \<^verbatim>\<open>std::make_shared\<close> makes every registered system an object of
  its own, reachable from the name map and from the caller; the objects live in a store
  addressed by allocation order, and the name map holds addresses.
\<close>

record 'h System =
  entities :: "Entity set"
  name :: string
  signature :: Signature
  enabled :: bool
  hook :: 'h

record ('k, 'v, 'h) World =
  entityManager :: EntityManager
  componentManager :: "('k, 'v) ComponentManager"
  systems :: "(string \<times> nat) list"
  systemOrder :: "string list"
  systemObjects :: "'h System list"

definition World_new :: "('k, 'v, 'h) World" where
  "World_new =
     \<lparr>entityManager = EntityManager_new, componentManager = ComponentManager_new,
      systems = [], systemOrder = [], systemObjects = []\<rparr>"

definition World_hasComponent :: "('k, 'v, 'h) World \<Rightarrow> 'k \<Rightarrow> Entity \<Rightarrow> error + bool" where
  "World_hasComponent w ti entity = ComponentManager_hasComponent (componentManager w) ti entity"

definition World_getComponent :: "('k, 'v, 'h) World \<Rightarrow> 'k \<Rightarrow> Entity \<Rightarrow> error + 'v" where
  "World_getComponent w ti entity = ComponentManager_getComponent (componentManager w) ti entity"

definition getEntityCount :: "('k, 'v, 'h) World \<Rightarrow> 32 word" where
  "getEntityCount w = getLivingCount (entityManager w)"

definition World_isAlive :: "('k, 'v, 'h) World \<Rightarrow> Entity \<Rightarrow> error + bool" where
  "World_isAlive w entity =
     (if entity = NULL_ENTITY \<or> entity > MAX_ENTITIES then Inr False
      else case getSignature (entityManager w) entity of
             Inl err \<Rightarrow> Inl err
           | Inr sg \<Rightarrow> Inr (sig_any sg))"

definition World_createEntity ::
  "('k, 'v, 'h) World \<Rightarrow> error + (Entity \<times> ('k, 'v, 'h) World)" where
  "World_createEntity w =
     (case EntityManager_createEntity (entityManager w) of
        Inl err \<Rightarrow> Inl err
      | Inr (ident, em) \<Rightarrow> Inr (ident, w\<lparr>entityManager := em\<rparr>))"

text \<open>
  The body of the loop of \<^verbatim>\<open>updateSystemEntitySets\<close> for one system, and the loop over the
  name map.
\<close>

definition refresh_system :: "Entity \<Rightarrow> Signature \<Rightarrow> 'h System \<Rightarrow> 'h System" where
  "refresh_system entity entitySignature sys =
     (if (entitySignature AND signature sys) = signature sys
      then sys\<lparr>entities := insert entity (entities sys)\<rparr>
      else sys\<lparr>entities := entities sys - {entity}\<rparr>)"

definition updateSystemEntitySets ::
  "('k, 'v, 'h) World \<Rightarrow> Entity \<Rightarrow> Signature \<Rightarrow> ('k, 'v, 'h) World" where
  "updateSystemEntitySets w entity entitySignature =
     w\<lparr>systemObjects :=
         fold (\<lambda>(nm, addr) objs. objs[addr := refresh_system entity entitySignature (objs ! addr)])
           (systems w) (systemObjects w)\<rparr>"

definition World_destroyEntity :: "('k, 'v, 'h) World \<Rightarrow> Entity \<Rightarrow> error + ('k, 'v, 'h) World" where
  "World_destroyEntity w entity =
     (let objs =
            fold (\<lambda>(nm, addr) objs.
                    objs[addr := (objs ! addr)\<lparr>entities := entities (objs ! addr) - {entity}\<rparr>])
              (systems w) (systemObjects w)
      in case ComponentManager_entityDestroyed (componentManager w) entity of
           Inl err \<Rightarrow> Inl err
         | Inr cm \<Rightarrow>
             (case EntityManager_destroyEntity (entityManager w) entity of
                Inl err \<Rightarrow> Inl err
              | Inr em \<Rightarrow>
                  Inr (w\<lparr>systemObjects := objs, componentManager := cm, entityManager := em\<rparr>)))"

definition World_registerComponent :: "('k, 'v, 'h) World \<Rightarrow> 'k \<Rightarrow> error + ('k, 'v, 'h) World" where
  "World_registerComponent w ti =
     (case ComponentManager_registerComponent (componentManager w) ti of
        Inl err \<Rightarrow> Inl err
      | Inr cm \<Rightarrow> Inr (w\<lparr>componentManager := cm\<rparr>))"

definition World_addComponent ::
  "('k, 'v, 'h) World \<Rightarrow> 'k \<Rightarrow> Entity \<Rightarrow> 'v \<Rightarrow> error + ('k, 'v, 'h) World" where
  "World_addComponent w ti entity component =
     (case ComponentManager_addComponent (componentManager w) ti entity component of
        Inl err \<Rightarrow> Inl err
      | Inr cm \<Rightarrow>
     (case getSignature (entityManager w) entity of
        Inl err \<Rightarrow> Inl err
      | Inr sg \<Rightarrow>
     (case getBit cm ti of
        Inl err \<Rightarrow> Inl err
      | Inr b \<Rightarrow>
     (case sig_set sg b of
        Inl err \<Rightarrow> Inl err
      | Inr sg' \<Rightarrow>
     (case setSignature (entityManager w) entity sg' of
        Inl err \<Rightarrow> Inl err
      | Inr em \<Rightarrow>
          Inr (updateSystemEntitySets (w\<lparr>componentManager := cm, entityManager := em\<rparr>)
                 entity sg'))))))"

definition World_removeComponent ::
  "('k, 'v, 'h) World \<Rightarrow> 'k \<Rightarrow> Entity \<Rightarrow> error + ('k, 'v, 'h) World" where
  "World_removeComponent w ti entity =
     (case ComponentManager_removeComponent (componentManager w) ti entity of
        Inl err \<Rightarrow> Inl err
      | Inr cm \<Rightarrow>
     (case getSignature (entityManager w) entity of
        Inl err \<Rightarrow> Inl err
      | Inr sg \<Rightarrow>
     (case getBit cm ti of
        Inl err \<Rightarrow> Inl err
      | Inr b \<Rightarrow>
     (case sig_reset sg b of
        Inl err \<Rightarrow> Inl err
      | Inr sg' \<Rightarrow>
     (case setSignature (entityManager w) entity sg' of
        Inl err \<Rightarrow> Inl err
      | Inr em \<Rightarrow>
          Inr (updateSystemEntitySets (w\<lparr>componentManager := cm, entityManager := em\<rparr>)
                 entity sg'))))))"

text \<open>
  \<^verbatim>\<open>registerSystem <T> (name, signature)\<close>: the new object has the base class's defaults
  (no entities, enabled); the result is its address and the new world.
\<close>

definition registerSystem ::
  "('k, 'v, 'h) World \<Rightarrow> 'h \<Rightarrow> string \<Rightarrow> Signature \<Rightarrow> nat \<times> ('k, 'v, 'h) World" where
  "registerSystem w T nm sg =
     (let addr = length (systemObjects w);
          sys = \<lparr>entities = {}, name = nm, signature = sg, enabled = True, hook = T\<rparr>
      in (addr, w\<lparr>systemObjects := systemObjects w @ [sys],
                   systems := AList.update nm addr (systems w),
                   systemOrder := systemOrder w @ [nm]\<rparr>))"

definition getSystem :: "('k, 'v, 'h) World \<Rightarrow> string \<Rightarrow> nat option" where
  "getSystem w nm = map_of (systems w) nm"

text \<open>
  \<^verbatim>\<open>updateSystems\<close>. What a derived class's \<^verbatim>\<open>update\<close> does is a parameter \<open>run\<close>, given
  the class, the object's address, \<open>dt\<close> and the world. The loop also returns the
  addresses of the objects whose \<^verbatim>\<open>update\<close> it called, in call order. The loop runs over
  the update list as it is when the call starts. \<^verbatim>\<open>systems [name]\<close> on a name that is not
  a key yields a null pointer, which the loop then dereferences.
\<close>

fun updateSystems_loop ::
  "('h \<Rightarrow> nat \<Rightarrow> 'd \<Rightarrow> ('k, 'v, 'h) World \<Rightarrow> ('k, 'v, 'h) World) \<Rightarrow> 'd \<Rightarrow> string list \<Rightarrow>
   ('k, 'v, 'h) World \<Rightarrow> nat list \<Rightarrow> error + (('k, 'v, 'h) World \<times> nat list)" where
  "updateSystems_loop run dt [] w called = Inr (w, called)"
| "updateSystems_loop run dt (nm # rest) w called =
     (case map_of (systems w) nm of
        None \<Rightarrow> Inl UndefinedBehaviour
      | Some addr \<Rightarrow>
          if addr < length (systemObjects w) then
            if enabled (systemObjects w ! addr)
            then updateSystems_loop run dt rest
                   (run (hook (systemObjects w ! addr)) addr dt w) (called @ [addr])
            else updateSystems_loop run dt rest w called
          else Inl UndefinedBehaviour)"

definition updateSystems ::
  "('h \<Rightarrow> nat \<Rightarrow> 'd \<Rightarrow> ('k, 'v, 'h) World \<Rightarrow> ('k, 'v, 'h) World) \<Rightarrow> 'd \<Rightarrow>
   ('k, 'v, 'h) World \<Rightarrow> error + (('k, 'v, 'h) World \<times> nat list)" where
  "updateSystems run dt w = updateSystems_loop run dt (systemOrder w) w []"

section \<open>Call sequences and the vocabulary of the properties\<close>

subsection \<open>Sequences of EntityManager calls\<close>

text \<open>
  A call sequence is run from left to right and stops at the first failure. Beside the
  manager the run keeps two ghost lists: \<open>live\<close>, the ids handed out by
  \<^verbatim>\<open>createEntity\<close> and not destroyed since (one entry per entity, so an id handed out
  twice appears twice), and \<open>returned\<close>, every id \<^verbatim>\<open>createEntity\<close> returned together
  with the signature stored for it at that moment.
\<close>

datatype em_op = Create | Destroy Entity | SetSig Entity Signature

record em_trace =
  mgr :: EntityManager
  live :: "Entity list"
  returned :: "(Entity \<times> Signature) list"

definition em_start :: em_trace where
  "em_start = \<lparr>mgr = EntityManager_new, live = [], returned = []\<rparr>"

fun em_step :: "em_op \<Rightarrow> em_trace \<Rightarrow> error + em_trace" where
  "em_step Create t =
     (case EntityManager_createEntity (mgr t) of
        Inl err \<Rightarrow> Inl err
      | Inr (ident, em) \<Rightarrow>
          Inr \<lparr>mgr = em, live = live t @ [ident],
               returned = returned t @ [(ident, signatures em ident)]\<rparr>)"
| "em_step (Destroy e) t =
     (case EntityManager_destroyEntity (mgr t) e of
        Inl err \<Rightarrow> Inl err
      | Inr em \<Rightarrow> Inr (t\<lparr>mgr := em, live := remove1 e (live t)\<rparr>))"
| "em_step (SetSig e sg) t =
     (case setSignature (mgr t) e sg of
        Inl err \<Rightarrow> Inl err
      | Inr em \<Rightarrow> Inr (t\<lparr>mgr := em\<rparr>))"

fun em_run :: "em_op list \<Rightarrow> em_trace \<Rightarrow> error + em_trace" where
  "em_run [] t = Inr t"
| "em_run (x # xs) t = (case em_step x t of Inl err \<Rightarrow> Inl err | Inr t' \<Rightarrow> em_run xs t')"

text \<open>
  A sequence is disciplined when every \<^verbatim>\<open>destroyEntity\<close> and \<^verbatim>\<open>setSignature\<close> in it is
  passed an id that is live at that point.
\<close>

fun targets_live :: "em_op \<Rightarrow> em_trace \<Rightarrow> bool" where
  "targets_live Create t = True"
| "targets_live (Destroy e) t = (e \<in> set (live t))"
| "targets_live (SetSig e sg) t = (e \<in> set (live t))"

fun disciplined :: "em_op list \<Rightarrow> em_trace \<Rightarrow> bool" where
  "disciplined [] t = True"
| "disciplined (x # xs) t =
     (targets_live x t \<and> (case em_step x t of Inl err \<Rightarrow> True | Inr t' \<Rightarrow> disciplined xs t'))"

definition em_inv :: "em_trace \<Rightarrow> bool" where
  "em_inv t =
     (distinct (availableIds (mgr t) @ live t) \<and>
      set (availableIds (mgr t)) \<union> set (live t) = {e. entity_in_range e} \<and>
      length (availableIds (mgr t)) + length (live t) = 4096 \<and>
      unat (livingCount (mgr t)) = length (live t) \<and>
      (\<forall>e \<in> set (availableIds (mgr t)). signatures (mgr t) e = 0) \<and>
      (\<forall>r \<in> set (returned t). snd r = 0))"

text \<open>The ids \<open>n\<close>, ..., \<open>MAX_ENTITIES\<close> in increasing order.\<close>

definition ids_from :: "nat \<Rightarrow> Entity list" where
  "ids_from n = map word_of_nat [n..<4097]"

subsection \<open>Sequences of ComponentArray calls and the dense-array invariant\<close>

datatype 'v ca_op = Insert Entity 'v | Remove Entity

fun ca_step :: "'v ca_op \<Rightarrow> 'v ComponentArray \<Rightarrow> error + 'v ComponentArray" where
  "ca_step (Insert e c) a = ComponentArray_insert a e c"
| "ca_step (Remove e) a = ComponentArray_remove a e"

fun ca_run :: "'v ca_op list \<Rightarrow> 'v ComponentArray \<Rightarrow> error + 'v ComponentArray" where
  "ca_run [] a = Inr a"
| "ca_run (x # xs) a = (case ca_step x a of Inl err \<Rightarrow> Inl err | Inr a' \<Rightarrow> ca_run xs a')"

definition dense_inv :: "'v ComponentArray \<Rightarrow> bool" where
  "dense_inv a =
     (length (indexToEntity a) = length (components a) \<and>
      card (dom (entityToIndex a)) = length (components a) \<and>
      (\<forall>e i. entityToIndex a e = Some i \<longrightarrow>
         i < length (components a) \<and> indexToEntity a ! i = e))"

subsection \<open>Sequences of World calls\<close>

datatype ('k, 'v, 'h) world_op =
    CreateEntity
  | DestroyEntity Entity
  | RegisterComponent 'k
  | AddComponent 'k Entity 'v
  | RemoveComponent 'k Entity
  | RegisterSystem 'h string Signature

fun world_step :: "('k, 'v, 'h) world_op \<Rightarrow> ('k, 'v, 'h) World \<Rightarrow> error + ('k, 'v, 'h) World" where
  "world_step CreateEntity w =
     (case World_createEntity w of Inl err \<Rightarrow> Inl err | Inr (ident, w') \<Rightarrow> Inr w')"
| "world_step (DestroyEntity e) w = World_destroyEntity w e"
| "world_step (RegisterComponent ti) w = World_registerComponent w ti"
| "world_step (AddComponent ti e c) w = World_addComponent w ti e c"
| "world_step (RemoveComponent ti e) w = World_removeComponent w ti e"
| "world_step (RegisterSystem T nm sg) w = Inr (snd (registerSystem w T nm sg))"

fun world_run ::
  "('k, 'v, 'h) world_op list \<Rightarrow> ('k, 'v, 'h) World \<Rightarrow> error + ('k, 'v, 'h) World" where
  "world_run [] w = Inr w"
| "world_run (x # xs) w =
     (case world_step x w of Inl err \<Rightarrow> Inl err | Inr w' \<Rightarrow> world_run xs w')"

text \<open>
  \<open>component_added e ops\<close>: the sequence adds a component to id \<open>e\<close> and does not
  destroy \<open>e\<close> afterwards. \<open>refreshes e x\<close>: the call is an \<^verbatim>\<open>addComponent\<close> or
  \<^verbatim>\<open>removeComponent\<close> on \<open>e\<close>.
\<close>

fun component_added_step :: "Entity \<Rightarrow> bool \<Rightarrow> ('k, 'v, 'h) world_op \<Rightarrow> bool" where
  "component_added_step e b (AddComponent ti e' c) = (b \<or> e' = e)"
| "component_added_step e b (DestroyEntity e') = (b \<and> e' \<noteq> e)"
| "component_added_step e b x = b"

definition component_added :: "Entity \<Rightarrow> ('k, 'v, 'h) world_op list \<Rightarrow> bool" where
  "component_added e ops = foldl (component_added_step e) False ops"

fun refreshes :: "Entity \<Rightarrow> ('k, 'v, 'h) world_op \<Rightarrow> bool" where
  "refreshes e (AddComponent ti e' c) = (e' = e)"
| "refreshes e (RemoveComponent ti e') = (e' = e)"
| "refreshes e x = False"

text \<open>\<open>registers nm x\<close>: the call is a \<^verbatim>\<open>registerSystem\<close> with the name \<open>nm\<close>.\<close>

fun registers :: "string \<Rightarrow> ('k, 'v, 'h) world_op \<Rightarrow> bool" where
  "registers nm (RegisterSystem T nm' sg) = (nm' = nm)"
| "registers nm x = False"



text \<open>Every address in the name map is the address of an allocated system object.\<close>

definition systems_ok :: "('k, 'v, 'h) World \<Rightarrow> bool" where
  "systems_ok w = (\<forall>addr \<in> snd ` set (systems w). addr < length (systemObjects w))"


text \<open>Every array of the registry satisfies the dense-array invariant.\<close>

definition arrays_ok :: "('k, 'v, 'h) World \<Rightarrow> bool" where
  "arrays_ok w = (\<forall>p \<in> set (typeToArray (componentManager w)). dense_inv (snd p))"

text \<open>
  Id \<open>e\<close> carries nothing: its signature is empty, no array holds a component for it
  and no registered system lists it.
\<close>

definition carries_nothing :: "('k, 'v, 'h) World \<Rightarrow> Entity \<Rightarrow> bool" where
  "carries_nothing w e =
     (signatures (entityManager w) e = 0 \<and>
      (\<forall>p \<in> set (typeToArray (componentManager w)). \<not> ComponentArray_has (snd p) e) \<and>
      (\<forall>addr \<in> snd ` set (systems w). e \<notin> entities (systemObjects w ! addr)))"

text \<open>
  Every name of the update list is a key of the name map, at the address of an allocated
  object.
\<close>

definition dispatch_ok :: "('k, 'v, 'h) World \<Rightarrow> bool" where
  "dispatch_ok w =
     (\<forall>nm \<in> set (systemOrder w).
        \<exists>addr. map_of (systems w) nm = Some addr \<and> addr < length (systemObjects w))"

text \<open>
  Update hooks that leave the name map and the enabled flags alone. (The store and the
  class of an object are fixed in the C++ program; for the parameter \<open>run\<close> this is
  part of the condition.)
\<close>

definition keeps_dispatch ::
  "('h \<Rightarrow> nat \<Rightarrow> 'd \<Rightarrow> ('k, 'v, 'h) World \<Rightarrow> ('k, 'v, 'h) World) \<Rightarrow> bool" where
  "keeps_dispatch run =
     (\<forall>T addr dt w.
        systems (run T addr dt w) = systems w \<and>
        length (systemObjects (run T addr dt w)) = length (systemObjects w) \<and>
        (\<forall>a < length (systemObjects w).
           enabled (systemObjects (run T addr dt w) ! a) = enabled (systemObjects w ! a) \<and>
           hook (systemObjects (run T addr dt w) ! a) = hook (systemObjects w ! a)))"

text \<open>
  The world after the \<^verbatim>\<open>update\<close> hooks of the objects at the given addresses have been
  called one after the other.
\<close>

fun call_hooks ::
  "('h \<Rightarrow> nat \<Rightarrow> 'd \<Rightarrow> ('k, 'v, 'h) World \<Rightarrow> ('k, 'v, 'h) World) \<Rightarrow> 'd \<Rightarrow>
   ('k, 'v, 'h) World \<Rightarrow> nat list \<Rightarrow> ('k, 'v, 'h) World" where
  "call_hooks run dt w [] = w"
| "call_hooks run dt w (addr # rest) =
     call_hooks run dt (run (hook (systemObjects w ! addr)) addr dt w) rest"

text \<open>
  The registry of systems is in order: every entry of the name map holds the address of
  an allocated object that was registered under that name, and every object is enabled.
\<close>

definition registry_ok :: "('k, 'v, 'h) World \<Rightarrow> bool" where
  "registry_ok w =
     ((\<forall>k a. map_of (systems w) k = Some a \<longrightarrow>
          a < length (systemObjects w) \<and> name (systemObjects w ! a) = k) \<and>
      (\<forall>a < length (systemObjects w). enabled (systemObjects w ! a)))"

section \<open>Properties of the EntityManager\<close>

lemma fill_ids_eq:
  "unat e \<le> 4097 \<Longrightarrow> fill_ids e q = q @ map word_of_nat [unat e..<4097]"
proof (induction e q rule: fill_ids.induct)
  case (1 e q)
  show ?case
  proof (cases "e \<le> MAX_ENTITIES")
    case True
    then have le: "unat e \<le> 4096"
      by (simp add: MAX_ENTITIES_def word_le_nat_alt)
    then have suc: "unat (e + 1) = unat e + 1"
      by (simp add: unat_word_ariths)
    have "fill_ids e q = fill_ids (e + 1) (q @ [e])"
      using True by (subst fill_ids.simps) simp
    also have "\<dots> = (q @ [e]) @ map word_of_nat [unat (e + 1)..<4097]"
      using "1.IH" [OF True] le suc by simp
    also have "\<dots> = q @ map word_of_nat [unat e..<4097]"
      using le suc by (simp add: upt_conv_Cons)
    finally show ?thesis .
  next
    case False
    then have "unat e = 4097"
      using "1.prems" by (simp add: MAX_ENTITIES_def word_le_nat_alt)
    then show ?thesis
      using False by (subst fill_ids.simps) simp
  qed
qed

lemma EntityManager_new_eq:
  "EntityManager_new = \<lparr>availableIds = ids_from 1, signatures = (\<lambda>_. 0), livingCount = 0\<rparr>"
  using fill_ids_eq [of 1 "[]"] by (simp add: EntityManager_new_def ids_from_def)

lemma ids_from_Cons: "n < 4097 \<Longrightarrow> ids_from n = word_of_nat n # ids_from (Suc n)"
  by (simp add: ids_from_def upt_conv_Cons)

lemma length_ids_from: "length (ids_from n) = 4097 - n"
  by (simp add: ids_from_def)

lemma ids_from_end: "ids_from 4097 = []"
  by (simp add: ids_from_def)

lemma entity_in_range_iff: "entity_in_range e = (1 \<le> unat e \<and> unat e \<le> 4096)"
  by (auto simp: entity_in_range_def NULL_ENTITY_def MAX_ENTITIES_def word_le_nat_alt
        word_less_nat_alt)

lemma set_ids_from: "set (ids_from n) = {e. n \<le> unat e \<and> unat e \<le> 4096}"
proof -
  have img: "set (ids_from n) = (word_of_nat ` {n..<4097} :: Entity set)"
    unfolding ids_from_def by (simp only: set_map set_upt)
  have "(word_of_nat ` {n..<4097} :: Entity set) = {e. n \<le> unat e \<and> unat e \<le> 4096}"
  proof (rule set_eqI)
    fix e :: Entity
    show "(e \<in> word_of_nat ` {n..<4097}) = (e \<in> {e. n \<le> unat e \<and> unat e \<le> 4096})"
    proof
      assume "e \<in> word_of_nat ` {n..<4097}"
      then obtain k :: nat where k: "n \<le> k" "k < 4097" "e = word_of_nat k"
        by auto
      then have "unat e = k"
        by (simp add: unat_of_nat)
      with k show "e \<in> {e. n \<le> unat e \<and> unat e \<le> 4096}"
        by simp
    next
      assume "e \<in> {e. n \<le> unat e \<and> unat e \<le> 4096}"
      then have "unat e \<in> {n..<4097}"
        by simp
      then have "word_of_nat (unat e) \<in> (word_of_nat ` {n..<4097} :: Entity set)"
        by (rule imageI)
      then show "e \<in> word_of_nat ` {n..<4097}"
        by simp
    qed
  qed
  with img show ?thesis by (rule trans)
qed

lemma set_ids_from_1: "set (ids_from 1) = {e. entity_in_range e}"
  by (simp add: set_ids_from entity_in_range_iff)

lemma inj_on_ids: "inj_on (word_of_nat :: nat \<Rightarrow> Entity) {n..<4097}"
proof (rule inj_onI)
  fix x y :: nat
  assume "x \<in> {n..<4097}" "y \<in> {n..<4097}"
    and eq: "(word_of_nat x :: Entity) = word_of_nat y"
  then have "x < 4097" "y < 4097" by simp_all
  then have "x < 2 ^ 32" "y < 2 ^ 32" by simp_all
  then have "unat (word_of_nat x :: Entity) = x" "unat (word_of_nat y :: Entity) = y"
    by (simp_all add: unat_of_nat)
  with eq show "x = y" by metis
qed

lemma distinct_ids_from: "distinct (ids_from n)"
  unfolding ids_from_def by (simp only: distinct_map distinct_upt set_upt inj_on_ids simp_thms)

lemma em_inv_start: "em_inv em_start"
  using set_ids_from_1 distinct_ids_from [of 1]
  by (simp add: em_inv_def em_start_def EntityManager_new_eq length_ids_from)

lemma unat_count_Suc:
  fixes c :: "32 word"
  assumes "c < MAX_ENTITIES"
  shows "unat (c + 1) = Suc (unat c)"
proof -
  from assms have "unat c < 4096"
    by (simp add: MAX_ENTITIES_def word_less_nat_alt)
  then show ?thesis
    by (simp add: unat_word_ariths)
qed

lemma count_less_iff:
  fixes c :: "32 word"
  shows "(c < MAX_ENTITIES) = (unat c < 4096)"
  by (simp add: MAX_ENTITIES_def word_less_nat_alt)

lemma unat_count_pred:
  fixes c :: "32 word"
  assumes "0 < unat c"
  shows "unat (c - 1) = unat c - 1"
  using assms unat_minus_one [of c] by (auto simp: unat_gt_0)

lemma em_step_inv:
  assumes inv: "em_inv t" and tl: "targets_live x t" and st: "em_step x t = Inr t'"
  shows "em_inv t'"
proof (cases x)
  case Create
  from st Create obtain ident rest where
    lt: "livingCount (mgr t) < MAX_ENTITIES" and
    q: "availableIds (mgr t) = ident # rest" and
    t': "t' = \<lparr>mgr = (mgr t)\<lparr>availableIds := rest, livingCount := livingCount (mgr t) + 1\<rparr>,
               live = live t @ [ident],
               returned = returned t @ [(ident, signatures (mgr t) ident)]\<rparr>"
    by (auto simp: EntityManager_createEntity_def split: if_splits list.splits)
  from inv q have "signatures (mgr t) ident = 0"
    by (simp add: em_inv_def)
  with inv q lt show ?thesis
    unfolding t' em_inv_def by (auto simp: unat_count_Suc)
next
  case (Destroy e)
  with tl have e: "e \<in> set (live t)" by simp
  from st Destroy have
    t': "t' = t\<lparr>mgr := (mgr t)\<lparr>signatures := (signatures (mgr t))(e := 0),
                               availableIds := availableIds (mgr t) @ [e],
                               livingCount := livingCount (mgr t) - 1\<rparr>,
               live := remove1 e (live t)\<rparr>"
    by (auto simp: EntityManager_destroyEntity_def split: if_splits)
  from inv have d: "distinct (live t)" by (simp add: em_inv_def)
  from e have pos: "0 < length (live t)" by (cases "live t") auto
  have len: "length (remove1 e (live t)) = length (live t) - 1"
    using e by (simp add: length_remove1)
  have set1: "set (remove1 e (live t)) = set (live t) - {e}"
    using d by (rule set_remove1_eq)
  from inv pos have cnt: "unat (livingCount (mgr t) - 1) = length (live t) - 1"
    by (simp add: em_inv_def unat_count_pred)
  from inv pos have tot: "length (availableIds (mgr t) @ [e]) + (length (live t) - 1) = 4096"
    unfolding em_inv_def by (cases "live t") auto
  from inv e have rng: "set (availableIds (mgr t) @ [e]) \<union> (set (live t) - {e}) = {e. entity_in_range e}"
    by (auto simp: em_inv_def)
  from inv e d have dis: "distinct ((availableIds (mgr t) @ [e]) @ remove1 e (live t))"
    using set1 by (auto simp: em_inv_def)
  from inv have sg: "\<forall>x \<in> set (availableIds (mgr t) @ [e]). ((signatures (mgr t))(e := 0)) x = 0"
    by (auto simp: em_inv_def)
  from inv have rt: "\<forall>r \<in> set (returned t). snd r = 0"
    by (simp add: em_inv_def)
  show ?thesis
    unfolding t' em_inv_def using tot rng dis sg rt len set1 cnt by simp
next
  case (SetSig e sg)
  with tl have e: "e \<in> set (live t)" by simp
  from st SetSig have
    t': "t' = t\<lparr>mgr := (mgr t)\<lparr>signatures := (signatures (mgr t))(e := sg)\<rparr>\<rparr>"
    by (auto simp: setSignature_def split: if_splits)
  from inv e show ?thesis
    unfolding t' em_inv_def by auto
qed

lemma em_run_inv:
  "em_inv t \<Longrightarrow> disciplined ops t \<Longrightarrow> em_run ops t = Inr t' \<Longrightarrow> em_inv t'"
proof (induction ops arbitrary: t)
  case Nil
  then show ?case by simp
next
  case (Cons x xs)
  from Cons.prems(3) obtain t1 where st: "em_step x t = Inr t1" and run: "em_run xs t1 = Inr t'"
    by (auto split: sum.splits)
  from Cons.prems(2) st have tl: "targets_live x t" and disc: "disciplined xs t1"
    by simp_all
  from em_step_inv [OF Cons.prems(1) tl st] disc run show ?case
    by (rule Cons.IH)
qed

lemma em_run_append:
  "em_run (xs @ ys) t = (case em_run xs t of Inl err \<Rightarrow> Inl err | Inr t' \<Rightarrow> em_run ys t')"
  by (induction xs arbitrary: t) (auto split: sum.splits)

lemma disciplined_append:
  "disciplined (xs @ ys) t =
     (disciplined xs t \<and> (case em_run xs t of Inl err \<Rightarrow> True | Inr t' \<Rightarrow> disciplined ys t'))"
  by (induction xs arbitrary: t) (auto split: sum.splits)

text \<open>While the invariant holds, \<open>createEntity\<close> succeeds exactly when the pool is not empty.\<close>

lemma em_inv_create_ok:
  assumes "em_inv t" and "availableIds (mgr t) \<noteq> []"
  shows "\<exists>t'. em_step Create t = Inr t'"
proof -
  from assms have "length (live t) < 4096"
    by (cases "availableIds (mgr t)") (auto simp: em_inv_def)
  with assms have "livingCount (mgr t) < MAX_ENTITIES"
    by (simp add: count_less_iff em_inv_def)
  with assms(2) show ?thesis
    by (cases "availableIds (mgr t)") (auto simp: EntityManager_createEntity_def)
qed

lemma em_step_returned:
  "em_step x t = Inr t1 \<Longrightarrow> \<exists>zs. returned t1 = returned t @ zs"
  by (cases x) (auto split: sum.splits prod.splits)

lemma em_run_returned:
  "em_run ops t = Inr t' \<Longrightarrow> \<exists>zs. returned t' = returned t @ zs"
proof (induction ops arbitrary: t)
  case Nil
  then show ?case by simp
next
  case (Cons x xs)
  from Cons.prems obtain t1 where st: "em_step x t = Inr t1" and run: "em_run xs t1 = Inr t'"
    by (auto split: sum.splits)
  from em_step_returned [OF st] Cons.IH [OF run] show ?case
    by auto
qed

text \<open>
  The FIFO order: an id at position \<open>i\<close> of the pool is returned by the \<open>(i + 1)\<close>-th
  later \<open>createEntity\<close>, whatever is destroyed in between.
\<close>

lemma queued_id_returned:
  assumes "em_run ops t = Inr t'"
    and "i < length (availableIds (mgr t))"
    and "availableIds (mgr t) ! i = e"
    and "i < count_list ops Create"
  shows "e \<in> fst ` set (drop (length (returned t)) (returned t'))"
  using assms
proof (induction ops arbitrary: t i)
  case Nil
  then show ?case by simp
next
  case (Cons x xs)
  from Cons.prems(1) obtain t1 where st: "em_step x t = Inr t1" and run: "em_run xs t1 = Inr t'"
    by (auto split: sum.splits)
  from em_run_returned [OF run] obtain zs where zs: "returned t' = returned t1 @ zs"
    by blast
  show ?case
  proof (cases x)
    case Create
    from st Create obtain ident rest where
      q: "availableIds (mgr t) = ident # rest" and
      q1: "availableIds (mgr t1) = rest" and
      r1: "returned t1 = returned t @ [(ident, signatures (mgr t1) ident)]"
      by (auto simp: EntityManager_createEntity_def split: if_splits list.splits)
    from zs r1 have dr: "drop (length (returned t)) (returned t') =
        (ident, signatures (mgr t1) ident) # drop (length (returned t1)) (returned t')"
      by simp
    show ?thesis
    proof (cases i)
      case 0
      with Cons.prems(3) q have "ident = e" by simp
      with dr show ?thesis by simp
    next
      case (Suc j)
      with Cons.prems q q1 Create have
        "j < length (availableIds (mgr t1))" "availableIds (mgr t1) ! j = e"
        "j < count_list xs Create"
        by simp_all
      from Cons.IH [OF run this] dr show ?thesis by simp
    qed
  next
    case (Destroy d)
    from st Destroy have
      q1: "availableIds (mgr t1) = availableIds (mgr t) @ [d]" and r1: "returned t1 = returned t"
      by (auto simp: EntityManager_destroyEntity_def split: if_splits)
    with Cons.prems Destroy have
      "i < length (availableIds (mgr t1))" "availableIds (mgr t1) ! i = e"
      "i < count_list xs Create"
      by (simp_all add: nth_append)
    from Cons.IH [OF run this] r1 show ?thesis by simp
  next
    case (SetSig d sg)
    from st SetSig have
      q1: "availableIds (mgr t1) = availableIds (mgr t)" and r1: "returned t1 = returned t"
      by (auto simp: setSignature_def split: if_splits)
    with Cons.prems SetSig have
      "i < length (availableIds (mgr t1))" "availableIds (mgr t1) ! i = e"
      "i < count_list xs Create"
      by simp_all
    from Cons.IH [OF run this] r1 show ?thesis by simp
  qed
qed

text \<open>\<open>n\<close> consecutive \<open>createEntity\<close> calls, in closed form.\<close>

lemma creates_run:
  "n \<le> length (availableIds (mgr t)) \<Longrightarrow> unat (livingCount (mgr t)) + n \<le> 4096 \<Longrightarrow>
   em_run (replicate n Create) t =
     Inr \<lparr>mgr = (mgr t)\<lparr>availableIds := drop n (availableIds (mgr t)),
                         livingCount := livingCount (mgr t) + word_of_nat n\<rparr>,
          live = live t @ take n (availableIds (mgr t)),
          returned = returned t @ map (\<lambda>i. (i, signatures (mgr t) i)) (take n (availableIds (mgr t)))\<rparr>"
proof (induction n arbitrary: t)
  case 0
  then show ?case by simp
next
  case (Suc n)
  from Suc.prems obtain ident rest where q: "availableIds (mgr t) = ident # rest"
    by (cases "availableIds (mgr t)") auto
  from Suc.prems have lt: "livingCount (mgr t) < MAX_ENTITIES"
    by (simp add: count_less_iff)
  define t1 where "t1 = \<lparr>mgr = (mgr t)\<lparr>availableIds := rest, livingCount := livingCount (mgr t) + 1\<rparr>,
        live = live t @ [ident], returned = returned t @ [(ident, signatures (mgr t) ident)]\<rparr>"
  from q lt have st: "em_step Create t = Inr t1"
    by (simp add: EntityManager_createEntity_def t1_def)
  have "n \<le> length (availableIds (mgr t1))" "unat (livingCount (mgr t1)) + n \<le> 4096"
    using Suc.prems q lt by (simp_all add: t1_def unat_count_Suc)
  from Suc.IH [OF this] st q show ?case
    by (simp add: t1_def)
qed

lemma creates_from_start:
  assumes "n \<le> 4096"
  shows "em_run (replicate n Create) em_start =
     Inr \<lparr>mgr = \<lparr>availableIds = drop n (ids_from 1), signatures = (\<lambda>_. 0),
                 livingCount = word_of_nat n\<rparr>,
          live = take n (ids_from 1),
          returned = map (\<lambda>i. (i, 0)) (take n (ids_from 1))\<rparr>"
  using assms creates_run [of n em_start]
  by (simp add: em_start_def EntityManager_new_eq length_ids_from)

lemma unat_count_of_nat: "n \<le> 4096 \<Longrightarrow> unat (word_of_nat n :: 32 word) = n"
  by (simp add: unat_of_nat)

text \<open>
  C7. From a freshly constructed EntityManager, each of the first \<open>MAX_ENTITIES\<close>
  consecutive \<open>createEntity\<close> calls finds \<open>livingCount < MAX_ENTITIES\<close> and succeeds,
  handing out the ids \<open>1, 2, ...\<close> in order; the call after them fails the exhaustion
  assertion.
\<close>

theorem createEntity_exhaustion:
  "(\<forall>n < unat MAX_ENTITIES.
      \<exists>t t'. em_run (replicate n Create) em_start = Inr t \<and>
             livingCount (mgr t) < MAX_ENTITIES \<and>
             em_step Create t = Inr t' \<and>
             map fst (returned t') = take (Suc n) (ids_from 1)) \<and>
   (\<exists>t. em_run (replicate (unat MAX_ENTITIES) Create) em_start = Inr t \<and>
        em_step Create t = Inl AssertionFailed)"
proof (intro conjI allI impI)
  fix n :: nat
  assume "n < unat MAX_ENTITIES"
  then have n: "n < 4096" by (simp add: MAX_ENTITIES_def)
  then have run: "em_run (replicate n Create) em_start =
     Inr \<lparr>mgr = \<lparr>availableIds = drop n (ids_from 1), signatures = (\<lambda>_. 0),
                 livingCount = word_of_nat n\<rparr>,
          live = take n (ids_from 1),
          returned = map (\<lambda>i. (i, 0)) (take n (ids_from 1))\<rparr>" (is "_ = Inr ?t")
    by (simp add: creates_from_start)
  from n have lt: "livingCount (mgr ?t) < MAX_ENTITIES"
    by (simp add: count_less_iff unat_count_of_nat)
  from n obtain ident rest where q: "drop n (ids_from 1) = ident # rest"
    by (cases "drop n (ids_from 1)") (auto simp: length_ids_from)
  from n have "take (Suc n) (ids_from 1) = take n (ids_from 1) @ [ids_from 1 ! n]"
    by (simp add: take_Suc_conv_app_nth length_ids_from)
  with q have tk: "take (Suc n) (ids_from 1) = take n (ids_from 1) @ [ident]"
    by (simp add: nth_via_drop)
  have "\<exists>t'. em_step Create ?t = Inr t' \<and> map fst (returned t') = take (Suc n) (ids_from 1)"
    using lt q tk by (simp add: EntityManager_createEntity_def comp_def)
  with run lt show "\<exists>t t'. em_run (replicate n Create) em_start = Inr t \<and>
             livingCount (mgr t) < MAX_ENTITIES \<and>
             em_step Create t = Inr t' \<and>
             map fst (returned t') = take (Suc n) (ids_from 1)"
    by blast
next
  have run: "em_run (replicate 4096 Create) em_start =
     Inr \<lparr>mgr = \<lparr>availableIds = drop 4096 (ids_from 1), signatures = (\<lambda>_. 0),
                 livingCount = word_of_nat 4096\<rparr>,
          live = take 4096 (ids_from 1),
          returned = map (\<lambda>i. (i, 0)) (take 4096 (ids_from 1))\<rparr>" (is "_ = Inr ?t")
    by (rule creates_from_start) simp
  have "em_step Create ?t = Inl AssertionFailed"
    by (simp add: EntityManager_createEntity_def MAX_ENTITIES_def)
  with run show "\<exists>t. em_run (replicate (unat MAX_ENTITIES) Create) em_start = Inr t \<and>
        em_step Create t = Inl AssertionFailed"
    by (simp add: MAX_ENTITIES_def)
qed

theorem createEntity_exhaustion_witness:
  "\<exists>t t'. em_run (replicate 2 Create) em_start = Inr t \<and>
          livingCount (mgr t) < MAX_ENTITIES \<and>
          em_step Create t = Inr t' \<and>
          map fst (returned t') = take 3 (ids_from 1)"
proof -
  have "(2::nat) < unat MAX_ENTITIES" by (simp add: MAX_ENTITIES_def)
  from createEntity_exhaustion [THEN conjunct1, rule_format, OF this] show ?thesis
    by simp
qed

lemma ids_from_1_unfold: "ids_from (Suc 0) = 1 # 2 # ids_from 3"
proof -
  have "ids_from (Suc 0) = word_of_nat (Suc 0) # ids_from (Suc (Suc 0))"
    by (rule ids_from_Cons) simp
  moreover have "ids_from (Suc (Suc 0)) = word_of_nat (Suc (Suc 0)) # ids_from (Suc (Suc (Suc 0)))"
    by (rule ids_from_Cons) simp
  moreover have "Suc (Suc (Suc 0)) = 3" "(word_of_nat (Suc (Suc 0)) :: Entity) = 2"
    by simp_all
  ultimately show ?thesis by simp
qed

lemma not_in_ids_from: "unat e < n \<Longrightarrow> e \<notin> set (ids_from n)"
  by (simp add: set_ids_from)

text \<open>
  C3, as stated, fails: \<open>destroyEntity\<close> checks only the range of its argument, so an id
  can be destroyed twice and is then queued twice. After creating entities 1 and 2 and
  destroying 1 twice, 4096 further \<open>createEntity\<close> calls all succeed and the last two
  both return id 1: two live entities share it.
\<close>

theorem double_destroy_shares_id:
  "(case em_run ([Create, Create, Destroy 1, Destroy 1] @ replicate 4096 Create) em_start of
      Inl err \<Rightarrow> False
    | Inr t \<Rightarrow> count_list (live t) 1 = 2 \<and> \<not> distinct (live t))"
proof -
  define t4 where "t4 =
     \<lparr>mgr = \<lparr>availableIds = ids_from 3 @ [1, 1], signatures = (\<lambda>_. 0), livingCount = 0\<rparr>,
      live = [2], returned = [(1, 0), (2, 0)]\<rparr>"
  have r4: "em_run [Create, Create, Destroy 1, Destroy 1] em_start = Inr t4"
    by (simp add: em_start_def EntityManager_new_eq ids_from_1_unfold t4_def
        EntityManager_createEntity_def EntityManager_destroyEntity_def entity_in_range_def
        NULL_ENTITY_def MAX_ENTITIES_def fun_upd_idem)
  have r: "em_run (replicate 4096 Create) t4 =
     Inr \<lparr>mgr = (mgr t4)\<lparr>availableIds := drop 4096 (availableIds (mgr t4)),
                          livingCount := livingCount (mgr t4) + word_of_nat 4096\<rparr>,
          live = live t4 @ take 4096 (availableIds (mgr t4)),
          returned = returned t4 @
            map (\<lambda>i. (i, signatures (mgr t4) i)) (take 4096 (availableIds (mgr t4)))\<rparr>"
    by (rule creates_run) (simp_all add: t4_def length_ids_from)
  have lv: "live t4 @ take 4096 (availableIds (mgr t4)) = 2 # ids_from 3 @ [1, 1]"
    by (simp add: t4_def length_ids_from)
  have "(1 :: Entity) \<notin> set (ids_from 3)"
    by (rule not_in_ids_from) simp
  then have "count_list (2 # ids_from 3 @ [1, 1 :: Entity]) 1 = 2"
    by (simp add: count_list_0_iff [THEN iffD2])
  moreover have "\<not> distinct (2 # ids_from 3 @ [1, 1 :: Entity])"
    by simp
  moreover have "em_run ([Create, Create, Destroy 1, Destroy 1] @ replicate 4096 Create) em_start =
      em_run (replicate 4096 Create) t4"
    by (simp only: em_run_append r4 sum.case)
  ultimately show ?thesis
    by (simp only: r lv sum.case em_trace.simps simp_thms)
qed

text \<open>
  C3, amended. In every call sequence from a fresh manager in which \<open>destroyEntity\<close> and
  \<open>setSignature\<close> are only passed live ids: no two live entities share an id; every id
  \<open>createEntity\<close> returned had an empty stored signature at that moment; while the pool
  is not empty \<open>createEntity\<close> succeeds; and a destroyed id is returned again, with an
  empty signature, once the sequence has made as many further \<open>createEntity\<close> calls as
  the pool held ids right after the destruction.
\<close>

theorem disciplined_ids_unique_and_recycled:
  assumes disc: "disciplined ops em_start" and run: "em_run ops em_start = Inr t"
  shows "distinct (live t) \<and>
         (\<forall>r \<in> set (returned t). snd r = 0) \<and>
         (availableIds (mgr t) \<noteq> [] \<longrightarrow> (\<exists>t'. em_step Create t = Inr t')) \<and>
         (\<forall>pre e post t1.
            ops = pre @ Destroy e # post \<and>
            em_run (pre @ [Destroy e]) em_start = Inr t1 \<and>
            length (availableIds (mgr t1)) \<le> count_list post Create \<longrightarrow>
            (e, 0) \<in> set (drop (length (returned t1)) (returned t)))"
proof (intro conjI allI impI)
  from em_run_inv [OF em_inv_start disc run] have inv: "em_inv t" .
  then show "distinct (live t)" and ret: "\<forall>r \<in> set (returned t). snd r = 0"
    by (simp_all add: em_inv_def)
  show "\<exists>t'. em_step Create t = Inr t'" if "availableIds (mgr t) \<noteq> []"
    using inv that by (rule em_inv_create_ok)
  fix pre e post t1
  assume h: "ops = pre @ Destroy e # post \<and>
            em_run (pre @ [Destroy e]) em_start = Inr t1 \<and>
            length (availableIds (mgr t1)) \<le> count_list post Create"
  then have ops: "ops = (pre @ [Destroy e]) @ post" by simp
  from h have r1: "em_run (pre @ [Destroy e]) em_start = Inr t1" by simp
  have "em_run ((pre @ [Destroy e]) @ post) em_start = em_run post t1"
    by (simp only: em_run_append [of "pre @ [Destroy e]"] r1 sum.case)
  with run ops have r2: "em_run post t1 = Inr t"
    by simp
  from r1 obtain t0 where "em_run pre em_start = Inr t0" and st: "em_step (Destroy e) t0 = Inr t1"
    by (auto simp: em_run_append split: sum.splits)
  from st have q: "availableIds (mgr t1) = availableIds (mgr t0) @ [e]"
    by (auto simp: EntityManager_destroyEntity_def split: if_splits)
  then have "length (availableIds (mgr t0)) < length (availableIds (mgr t1))"
    and "availableIds (mgr t1) ! length (availableIds (mgr t0)) = e"
    by simp_all
  moreover from h q have "length (availableIds (mgr t0)) < count_list post Create"
    by simp
  ultimately have "e \<in> fst ` set (drop (length (returned t1)) (returned t))"
    using queued_id_returned [OF r2] by blast
  then obtain s where s: "(e, s) \<in> set (drop (length (returned t1)) (returned t))"
    by force
  then have "(e, s) \<in> set (returned t)"
    by (rule in_set_dropD)
  with ret have "s = 0" by force
  with s show "(e, 0) \<in> set (drop (length (returned t1)) (returned t))"
    by simp
qed

lemma count_list_creates: "count_list (replicate n Create) Create = n"
  by (induction n) simp_all

lemma disciplined_creates: "disciplined (replicate n Create) t"
  by (induction n arbitrary: t) (auto split: sum.splits)

theorem disciplined_ids_unique_and_recycled_witness:
  "disciplined ([Create, Destroy 1] @ replicate 4096 Create) em_start \<and>
   (\<exists>t t1. em_run ([Create, Destroy 1] @ replicate 4096 Create) em_start = Inr t \<and>
           em_run ([Create] @ [Destroy 1]) em_start = Inr t1 \<and>
           length (availableIds (mgr t1)) \<le> count_list (replicate 4096 Create) Create \<and>
           distinct (live t) \<and>
           (1, 0) \<in> set (drop (length (returned t1)) (returned t)))"
proof -
  define t2 where "t2 =
     \<lparr>mgr = \<lparr>availableIds = 2 # ids_from 3 @ [1], signatures = (\<lambda>_. 0), livingCount = 0\<rparr>,
      live = [], returned = [(1, 0)]\<rparr>"
  define ops where "ops = [Create, Destroy 1] @ replicate 4096 Create"
  have r2: "em_run [Create, Destroy 1] em_start = Inr t2"
    by (simp add: em_start_def EntityManager_new_eq ids_from_1_unfold t2_def
        EntityManager_createEntity_def EntityManager_destroyEntity_def entity_in_range_def
        NULL_ENTITY_def MAX_ENTITIES_def fun_upd_idem)
  have d2: "disciplined [Create, Destroy 1] em_start"
    by (simp add: em_start_def EntityManager_new_eq ids_from_1_unfold
        EntityManager_createEntity_def EntityManager_destroyEntity_def entity_in_range_def
        NULL_ENTITY_def MAX_ENTITIES_def)
  have d: "disciplined ops em_start"
    unfolding ops_def by (simp only: disciplined_append d2 r2 sum.case disciplined_creates simp_thms)
  have "em_run (replicate 4096 Create) t2 =
     Inr \<lparr>mgr = (mgr t2)\<lparr>availableIds := drop 4096 (availableIds (mgr t2)),
                          livingCount := livingCount (mgr t2) + word_of_nat 4096\<rparr>,
          live = live t2 @ take 4096 (availableIds (mgr t2)),
          returned = returned t2 @
            map (\<lambda>i. (i, signatures (mgr t2) i)) (take 4096 (availableIds (mgr t2)))\<rparr>"
    (is "_ = Inr ?t")
    by (rule creates_run) (simp_all add: t2_def length_ids_from)
  then have r: "em_run ops em_start = Inr ?t"
    unfolding ops_def by (simp only: em_run_append r2 sum.case)
  have r1: "em_run ([Create] @ [Destroy 1]) em_start = Inr t2"
    using r2 by simp
  have len: "length (availableIds (mgr t2)) \<le> count_list (replicate 4096 Create) Create"
    by (simp add: t2_def length_ids_from count_list_creates)
  have split: "ops = [Create] @ Destroy 1 # replicate 4096 Create"
    by (simp add: ops_def)
  from disciplined_ids_unique_and_recycled [OF d r]
  have "distinct (live ?t)" and
    "\<forall>pre e post t1.
        ops = pre @ Destroy e # post \<and>
        em_run (pre @ [Destroy e]) em_start = Inr t1 \<and>
        length (availableIds (mgr t1)) \<le> count_list post Create \<longrightarrow>
        (e, 0) \<in> set (drop (length (returned t1)) (returned ?t))"
    by blast+
  with split r1 len have "distinct (live ?t)"
    and "(1, 0) \<in> set (drop (length (returned t2)) (returned ?t))"
    by blast+
  with d r r1 len show ?thesis
    unfolding ops_def by blast
qed

section \<open>Properties of the ComponentArray\<close>

lemma dense_inv_new: "dense_inv ComponentArray_new"
  by (simp add: dense_inv_def ComponentArray_new_def)

text \<open>
  The invariant makes the entity-to-index map a bijection onto the dense indices: it is
  injective, and its domain has as many elements as there are slots.
\<close>

lemma dense_inv_onto:
  assumes inv: "dense_inv a" and i: "i < length (components a)"
  shows "entityToIndex a (indexToEntity a ! i) = Some i"
proof -
  let ?D = "dom (entityToIndex a)"
  let ?f = "\<lambda>e. the (entityToIndex a e)"
  let ?n = "length (components a)"
  have idx: "indexToEntity a ! (?f e) = e" if "e \<in> ?D" for e
    using inv that by (auto simp: dense_inv_def)
  have bound: "?f e < ?n" if "e \<in> ?D" for e
    using inv that by (auto simp: dense_inv_def)
  have "inj_on ?f ?D"
  proof (rule inj_onI)
    fix x y assume "x \<in> ?D" "y \<in> ?D" "?f x = ?f y"
    then show "x = y" using idx [of x] idx [of y] by metis
  qed
  then have "card (?f ` ?D) = ?n"
    using inv by (simp add: card_image dense_inv_def)
  moreover have "?f ` ?D \<subseteq> {..<?n}"
    using bound by auto
  ultimately have "?f ` ?D = {..<?n}"
    by (simp add: card_subset_eq)
  with i obtain e where e: "e \<in> ?D" "?f e = i"
    by (metis imageE lessThan_iff)
  then have "entityToIndex a e = Some i" by auto
  moreover from idx [OF e(1)] e(2) have "indexToEntity a ! i = e" by simp
  ultimately show ?thesis by simp
qed

lemma insert_result:
  assumes "entityToIndex a e = None"
  shows "ComponentArray_insert a e c =
           Inr \<lparr>components = components a @ [c],
                entityToIndex = (entityToIndex a)(e \<mapsto> length (components a)),
                indexToEntity = indexToEntity a @ [e]\<rparr>"
  using assms by (simp add: ComponentArray_insert_def)

lemma insert_fails:
  "entityToIndex a e \<noteq> None \<Longrightarrow> ComponentArray_insert a e c = Inl AssertionFailed"
  by (simp add: ComponentArray_insert_def)

lemma insert_inv:
  assumes inv: "dense_inv a" and ins: "ComponentArray_insert a e c = Inr a'"
  shows "dense_inv a'"
proof -
  from ins have none: "entityToIndex a e = None"
    by (auto simp: ComponentArray_insert_def split: if_splits)
  with ins have a': "a' = \<lparr>components = components a @ [c],
                entityToIndex = (entityToIndex a)(e \<mapsto> length (components a)),
                indexToEntity = indexToEntity a @ [e]\<rparr>"
    by (simp add: insert_result)
  from none have "e \<notin> dom (entityToIndex a)" by auto
  then have "card (insert e (dom (entityToIndex a))) = Suc (card (dom (entityToIndex a)))"
    by (simp add: card_insert_disjoint)
  with inv have c: "card (dom ((entityToIndex a)(e \<mapsto> length (components a)))) =
      length (components a @ [c])"
    by (simp add: dense_inv_def)
  from inv have len: "length (indexToEntity a @ [e]) = length (components a @ [c])"
    by (simp add: dense_inv_def)
  have pts: "k < length (components a @ [c]) \<and> (indexToEntity a @ [e]) ! k = x"
    if x: "((entityToIndex a)(e \<mapsto> length (components a))) x = Some k" for x k
  proof (cases "x = e")
    case True
    with x have k: "k = length (components a)" by simp
    from inv have "length (indexToEntity a) = length (components a)"
      by (simp add: dense_inv_def)
    then have "(indexToEntity a @ [e]) ! length (components a) = e"
      by (metis nth_append_length)
    with True k show ?thesis by simp
  next
    case False
    with x have "entityToIndex a x = Some k" by simp
    with inv have "k < length (components a)" "indexToEntity a ! k = x"
      by (auto simp: dense_inv_def)
    with inv show ?thesis by (simp add: dense_inv_def nth_append)
  qed
  show ?thesis
    unfolding a' dense_inv_def using c len pts by simp
qed

text \<open>\<open>remove\<close> on a present entity, in closed form.\<close>

lemma remove_result:
  assumes inv: "dense_inv a" and e: "entityToIndex a e = Some i"
  shows "ComponentArray_remove a e =
           Inr \<lparr>components = butlast ((components a)[i := last (components a)]),
                entityToIndex =
                  ((entityToIndex a)(last (indexToEntity a) \<mapsto> i))(e := None),
                indexToEntity = butlast ((indexToEntity a)[i := last (indexToEntity a)])\<rparr>"
proof -
  let ?n = "length (components a)"
  from inv e have i: "i < ?n" and ie: "indexToEntity a ! i = e"
    and len: "length (indexToEntity a) = ?n"
    by (auto simp: dense_inv_def)
  then have ne: "components a \<noteq> []" "indexToEntity a \<noteq> []"
    by auto
  then have lastc: "components a ! (?n - 1) = last (components a)"
    and laste: "indexToEntity a ! (?n - 1) = last (indexToEntity a)"
    using len by (simp_all add: last_conv_nth)
  show ?thesis
  proof (cases "i = ?n - 1")
    case True
    with ie laste have le: "last (indexToEntity a) = e" by simp
    have "(components a)[i := last (components a)] = components a"
      using True lastc by (metis list_update_id)
    moreover have "(indexToEntity a)[i := last (indexToEntity a)] = indexToEntity a"
      using True laste by (metis list_update_id)
    ultimately show ?thesis
      using True e ne le by (cases a) (simp add: ComponentArray_remove_def)
  next
    case False
    with i len ne lastc laste e show ?thesis
      by (cases a) (simp add: ComponentArray_remove_def Let_def)
  qed
qed

lemma remove_fails:
  "entityToIndex a e = None \<Longrightarrow> ComponentArray_remove a e = Inl AssertionFailed"
  by (simp add: ComponentArray_remove_def)

lemma dense_inv_last:
  assumes inv: "dense_inv a" and ne: "components a \<noteq> []"
  shows "entityToIndex a (last (indexToEntity a)) = Some (length (components a) - 1)"
proof -
  from inv ne have "indexToEntity a \<noteq> []" "length (indexToEntity a) = length (components a)"
    by (auto simp: dense_inv_def)
  then have "last (indexToEntity a) = indexToEntity a ! (length (components a) - 1)"
    by (simp add: last_conv_nth)
  moreover from ne have "length (components a) - 1 < length (components a)"
    by simp
  ultimately show ?thesis
    using dense_inv_onto [OF inv] by simp
qed

text \<open>What \<open>remove\<close> does to the map: the removed entity leaves, every other key stays.\<close>

lemma remove_has:
  assumes inv: "dense_inv a" and e: "entityToIndex a e = Some i"
    and rm: "ComponentArray_remove a e = Inr a'"
  shows "ComponentArray_has a' e' = (ComponentArray_has a e' \<and> e' \<noteq> e)"
proof -
  from inv e have ne: "components a \<noteq> []" by (auto simp: dense_inv_def)
  from dense_inv_last [OF inv ne] have "ComponentArray_has a (last (indexToEntity a))"
    by (simp add: ComponentArray_has_def)
  with rm show ?thesis
    unfolding remove_result [OF inv e]
    by (cases "e' = last (indexToEntity a)") (auto simp: ComponentArray_has_def split: if_splits)
qed

lemma remove_size:
  assumes inv: "dense_inv a" and e: "entityToIndex a e = Some i"
    and rm: "ComponentArray_remove a e = Inr a'"
  shows "ComponentArray_size a' + 1 = ComponentArray_size a"
proof -
  from inv e have "components a \<noteq> []" by (auto simp: dense_inv_def)
  with rm show ?thesis
    unfolding remove_result [OF inv e] by (auto simp: ComponentArray_size_def)
qed

lemma remove_get:
  assumes inv: "dense_inv a" and e: "entityToIndex a e = Some i"
    and rm: "ComponentArray_remove a e = Inr a'"
    and other: "e' \<noteq> e" and present: "entityToIndex a e' = Some j"
  shows "ComponentArray_get a' e' = Inr (components a ! j) \<and>
         ComponentArray_get a e' = Inr (components a ! j)"
proof -
  let ?n = "length (components a)"
  from inv e present have i: "i < ?n" and j: "j < ?n"
    and ie: "indexToEntity a ! i = e" and je: "indexToEntity a ! j = e'"
    and len: "length (indexToEntity a) = ?n"
    by (auto simp: dense_inv_def)
  then have ne: "components a \<noteq> []" by auto
  from other ie je have ij: "i \<noteq> j" by auto
  have lastc: "last (components a) = components a ! (?n - 1)"
    using ne by (simp add: last_conv_nth)
  note last = dense_inv_last [OF inv ne]
  have old: "ComponentArray_get a e' = Inr (components a ! j)"
    using present j by (simp add: ComponentArray_get_def)
  have new: "ComponentArray_get a' e' = Inr (components a ! j)"
  proof (cases "e' = last (indexToEntity a)")
    case True
    with last present have jl: "j = ?n - 1" by simp
    with ij i have "i < ?n - 1" by arith
    with rm True other jl lastc show ?thesis
      unfolding remove_result [OF inv e]
      by (auto simp: ComponentArray_get_def nth_butlast)
  next
    case False
    have "last (indexToEntity a) = indexToEntity a ! (?n - 1)"
      using len ne by (cases "indexToEntity a" rule: rev_cases) (auto simp: nth_append)
    with False je have "j \<noteq> ?n - 1" by auto
    with j have "j < ?n - 1" by arith
    with rm False other present ij show ?thesis
      unfolding remove_result [OF inv e]
      by (auto simp: ComponentArray_get_def nth_butlast)
  qed
  from new old show ?thesis ..
qed

lemma remove_inv:
  assumes inv: "dense_inv a" and rm: "ComponentArray_remove a e = Inr a'"
  shows "dense_inv a'"
proof -
  from rm obtain i where e: "entityToIndex a e = Some i"
    by (cases "entityToIndex a e") (auto simp: ComponentArray_remove_def)
  let ?n = "length (components a)"
  let ?l = "last (indexToEntity a)"
  from inv e have i: "i < ?n" and ie: "indexToEntity a ! i = e"
    and len: "length (indexToEntity a) = ?n"
    and card: "card (dom (entityToIndex a)) = ?n"
    by (auto simp: dense_inv_def)
  then have ne: "components a \<noteq> []" by auto
  note last = dense_inv_last [OF inv ne]
  from rm have a': "a' = \<lparr>components = butlast ((components a)[i := last (components a)]),
                entityToIndex = ((entityToIndex a)(?l \<mapsto> i))(e := None),
                indexToEntity = butlast ((indexToEntity a)[i := ?l])\<rparr>"
    unfolding remove_result [OF inv e] by simp
  have dom: "dom (((entityToIndex a)(?l \<mapsto> i))(e := None)) = dom (entityToIndex a) - {e}"
    using last by auto
  have "e \<in> dom (entityToIndex a)" using e by auto
  then have c: "card (dom (entityToIndex a) - {e}) = ?n - 1"
    using card by simp
  have pts: "k < ?n - 1 \<and> butlast ((indexToEntity a)[i := ?l]) ! k = x"
    if x: "(((entityToIndex a)(?l \<mapsto> i))(e := None)) x = Some k" for x k
  proof (cases "x = ?l")
    case True
    with x have xe: "x \<noteq> e" and k: "k = i" by (auto split: if_splits)
    have "?l = indexToEntity a ! (?n - 1)"
      using len ne by (cases "indexToEntity a" rule: rev_cases) (auto simp: nth_append)
    with True xe ie have "i \<noteq> ?n - 1" by auto
    with i have "i < ?n - 1" by arith
    with True k len show ?thesis by (simp add: nth_butlast)
  next
    case False
    with x have xe: "x \<noteq> e" and xk: "entityToIndex a x = Some k" by (auto split: if_splits)
    from inv xk have k: "k < ?n" and kx: "indexToEntity a ! k = x"
      by (auto simp: dense_inv_def)
    have "?l = indexToEntity a ! (?n - 1)"
      using len ne by (cases "indexToEntity a" rule: rev_cases) (auto simp: nth_append)
    with False kx have "k \<noteq> ?n - 1" by auto
    with k have k1: "k < ?n - 1" by arith
    from xe kx ie have "k \<noteq> i" by auto
    with k1 kx len show ?thesis by (simp add: nth_butlast)
  qed
  show ?thesis
    unfolding a' dense_inv_def using len c dom pts by auto
qed

lemma ca_step_inv: "dense_inv a \<Longrightarrow> ca_step x a = Inr a' \<Longrightarrow> dense_inv a'"
  by (cases x) (auto intro: insert_inv remove_inv)

lemma ca_step_defined: "dense_inv a \<Longrightarrow> ca_step x a \<noteq> Inl UndefinedBehaviour \<and> ca_step x a \<noteq> Inl OutOfRange"
proof (cases x)
  case (Insert e c)
  then show ?thesis
    by (cases "entityToIndex a e") (simp_all add: insert_result insert_fails)
next
  case (Remove e)
  assume "dense_inv a"
  with Remove show ?thesis
    by (cases "entityToIndex a e") (simp_all add: remove_result remove_fails)
qed

lemma ca_run_inv: "dense_inv a \<Longrightarrow> ca_run ops a = Inr a' \<Longrightarrow> dense_inv a'"
proof (induction ops arbitrary: a)
  case Nil
  then show ?case by simp
next
  case (Cons x xs)
  from Cons.prems(2) obtain a1 where st: "ca_step x a = Inr a1" and run: "ca_run xs a1 = Inr a'"
    by (auto split: sum.splits)
  from ca_step_inv [OF Cons.prems(1) st] run show ?case
    by (rule Cons.IH)
qed

lemma ca_run_defined:
  "dense_inv a \<Longrightarrow> ca_run ops a \<noteq> Inl UndefinedBehaviour \<and> ca_run ops a \<noteq> Inl OutOfRange"
proof (induction ops arbitrary: a)
  case Nil
  then show ?case by simp
next
  case (Cons x xs)
  show ?case
  proof (cases "ca_step x a")
    case (Inl err)
    with ca_step_defined [OF Cons.prems, of x] show ?thesis by auto
  next
    case (Inr a1)
    with Cons.prems have "dense_inv a1" by (auto intro: ca_step_inv)
    from Cons.IH [OF this] Inr show ?thesis by simp
  qed
qed

text \<open>
  C2. After any sequence of \<open>insert\<close> and \<open>remove\<close> calls on a fresh store in which no
  assertion fails (no duplicate insert, no remove of an absent entity), \<open>size ()\<close> is the
  number of entries of the entity-to-index map, and every entity present in the store is
  found at its own index in \<open>indexToEntity\<close>. (By \<open>ca_run_defined\<close> such a sequence
  can fail in no other way than by an assertion.)
\<close>

theorem dense_array_invariant:
  assumes "ca_run ops ComponentArray_new = Inr a"
  shows "ComponentArray_size a = card (dom (entityToIndex a)) \<and>
         (\<forall>e. ComponentArray_has a e \<longrightarrow>
              (\<exists>i. entityToIndex a e = Some i \<and> i < length (indexToEntity a) \<and>
                   indexToEntity a ! i = e))"
proof -
  from ca_run_inv [OF dense_inv_new assms] have "dense_inv a" .
  then show ?thesis
    by (auto simp: dense_inv_def ComponentArray_size_def ComponentArray_has_def)
qed

theorem dense_array_invariant_witness:
  "\<exists>a. ca_run [Insert 1 (10 :: nat), Insert 2 20, Insert 3 30, Remove 1] ComponentArray_new = Inr a \<and>
       ComponentArray_size a = 2 \<and>
       ComponentArray_size a = card (dom (entityToIndex a)) \<and>
       (\<forall>e. ComponentArray_has a e \<longrightarrow>
            (\<exists>i. entityToIndex a e = Some i \<and> i < length (indexToEntity a) \<and>
                 indexToEntity a ! i = e))"
proof -
  have "\<exists>a. ca_run [Insert 1 (10 :: nat), Insert 2 20, Insert 3 30, Remove 1] ComponentArray_new = Inr a
      \<and> ComponentArray_size a = 2"
    by (simp add: ComponentArray_new_def ComponentArray_insert_def ComponentArray_remove_def
        ComponentArray_size_def Let_def)
  then obtain a where
    r: "ca_run [Insert 1 (10 :: nat), Insert 2 20, Insert 3 30, Remove 1] ComponentArray_new = Inr a"
    and "ComponentArray_size a = 2"
    by blast
  with dense_array_invariant [OF r] show ?thesis
    by blast
qed

text \<open>
  C4. On a store that satisfies the dense-array invariant, \<open>remove (e)\<close> of a present
  entity succeeds, makes \<open>size ()\<close> one smaller and \<open>has (e)\<close> false, and leaves every
  other present entity present with the same value under \<open>get\<close>; the invariant holds
  again afterwards.
\<close>

theorem remove_keeps_others:
  assumes inv: "dense_inv a" and present: "ComponentArray_has a e"
  shows "\<exists>a'. ComponentArray_remove a e = Inr a' \<and>
           ComponentArray_size a' + 1 = ComponentArray_size a \<and>
           \<not> ComponentArray_has a' e \<and>
           (\<forall>e'. e' \<noteq> e \<and> ComponentArray_has a e' \<longrightarrow>
                 ComponentArray_has a' e' \<and>
                 (\<exists>c. ComponentArray_get a e' = Inr c \<and> ComponentArray_get a' e' = Inr c)) \<and>
           dense_inv a'"
proof -
  from present obtain i where e: "entityToIndex a e = Some i"
    by (auto simp: ComponentArray_has_def)
  from remove_result [OF inv e] obtain a' where rm: "ComponentArray_remove a e = Inr a'"
    by blast
  have "ComponentArray_has a' e' \<and>
        (\<exists>c. ComponentArray_get a e' = Inr c \<and> ComponentArray_get a' e' = Inr c)"
    if "e' \<noteq> e \<and> ComponentArray_has a e'" for e'
  proof -
    from that obtain j where j: "entityToIndex a e' = Some j"
      by (auto simp: ComponentArray_has_def)
    from that remove_has [OF inv e rm, of e'] remove_get [OF inv e rm _ j]
    show ?thesis by auto
  qed
  with rm remove_size [OF inv e rm] remove_has [OF inv e rm, of e] remove_inv [OF inv rm]
  show ?thesis by auto
qed

theorem remove_keeps_others_witness:
  "\<exists>a a'. ca_run [Insert 1 (10 :: nat), Insert 2 20, Insert 3 30] ComponentArray_new = Inr a \<and>
          dense_inv a \<and> ComponentArray_has a 1 \<and>
          ComponentArray_remove a 1 = Inr a' \<and>
          ComponentArray_size a = 3 \<and> ComponentArray_size a' = 2 \<and>
          \<not> ComponentArray_has a' 1 \<and>
          ComponentArray_has a' 2 \<and> ComponentArray_get a' 2 = Inr 20 \<and>
          ComponentArray_has a' 3 \<and> ComponentArray_get a' 3 = Inr 30"
proof -
  have "\<exists>a. ca_run [Insert 1 (10 :: nat), Insert 2 20, Insert 3 30] ComponentArray_new = Inr a \<and>
          ComponentArray_has a 1 \<and> ComponentArray_has a 2 \<and> ComponentArray_has a 3 \<and>
          ComponentArray_size a = 3 \<and>
          ComponentArray_get a 2 = Inr 20 \<and> ComponentArray_get a 3 = Inr 30"
    by (simp add: ComponentArray_new_def ComponentArray_insert_def ComponentArray_has_def
        ComponentArray_get_def ComponentArray_size_def Let_def)
  then obtain a where
    r: "ca_run [Insert 1 (10 :: nat), Insert 2 20, Insert 3 30] ComponentArray_new = Inr a"
    and h: "ComponentArray_has a 1" "ComponentArray_has a 2" "ComponentArray_has a 3"
    and s: "ComponentArray_size a = 3"
    and g: "ComponentArray_get a 2 = Inr 20" "ComponentArray_get a 3 = Inr 30"
    by blast
  from ca_run_inv [OF dense_inv_new r] have inv: "dense_inv a" .
  from remove_keeps_others [OF inv h(1)] obtain a' where
    rm: "ComponentArray_remove a 1 = Inr a'"
    and s': "ComponentArray_size a' + 1 = ComponentArray_size a"
    and n: "\<not> ComponentArray_has a' 1"
    and o: "\<forall>e'. e' \<noteq> 1 \<and> ComponentArray_has a e' \<longrightarrow>
                 ComponentArray_has a' e' \<and>
                 (\<exists>c. ComponentArray_get a e' = Inr c \<and> ComponentArray_get a' e' = Inr c)"
    by blast
  have ne: "(2 :: Entity) \<noteq> 1" "(3 :: Entity) \<noteq> 1" by simp_all
  from o ne(1) h(2) g(1) have "ComponentArray_has a' 2 \<and> ComponentArray_get a' 2 = Inr 20"
    by (metis Inr_inject)
  moreover from o ne(2) h(3) g(2) have "ComponentArray_has a' 3 \<and> ComponentArray_get a' 3 = Inr 30"
    by (metis Inr_inject)
  moreover from s s' have "ComponentArray_size a' = 2" by simp
  ultimately show ?thesis
    using r inv h(1) rm s n by blast
qed

section \<open>Properties of the World\<close>

lemma sig_any_iff: "sig_any s = (\<exists>i < MAX_COMPONENTS. bit s i)"
proof
  assume "sig_any s"
  then have "s \<noteq> 0" by (simp add: sig_any_def)
  then obtain i where i: "bit s i"
    by (auto simp: bit_eq_iff)
  then have "i < 64"
    using bit_imp_le_length [of s i] by simp
  with i show "\<exists>i < MAX_COMPONENTS. bit s i"
    by (auto simp: MAX_COMPONENTS_def)
next
  assume "\<exists>i < MAX_COMPONENTS. bit s i"
  then show "sig_any s"
    by (auto simp: sig_any_def)
qed

lemma entity_in_range_alt:
  "entity_in_range e = (e \<noteq> NULL_ENTITY \<and> \<not> e > MAX_ENTITIES)"
  by (auto simp: entity_in_range_def NULL_ENTITY_def word_gt_0)

lemma isAlive_alt:
  "World_isAlive w e = Inr (entity_in_range e \<and> signatures (entityManager w) e \<noteq> 0)"
  by (auto simp: World_isAlive_def getSignature_def sig_any_def entity_in_range_alt)



lemma set_bit_1_and_1: "(set_bit (Suc 0) (1 :: Signature) AND 1) = 1"
  by (rule bit_word_eqI) (auto simp: bit_simps bit_1_iff)

subsection \<open>The loops over the name map\<close>

lemma fold_objects_length:
  "length (fold (\<lambda>(nm, addr) objs. objs[addr := f (objs ! addr)]) sys objs) = length objs"
  by (induction sys arbitrary: objs) (auto split: prod.splits)

lemma fold_objects_nth:
  assumes idem: "\<And>x. f (f x) = f x" and a: "a < length objs"
  shows "fold (\<lambda>(nm, addr) objs. objs[addr := f (objs ! addr)]) sys objs ! a =
           (if a \<in> snd ` set sys then f (objs ! a) else objs ! a)"
  using a
proof (induction sys arbitrary: objs)
  case Nil
  then show ?case by simp
next
  case (Cons p sys)
  obtain nm addr where p: "p = (nm, addr)" by (cases p)
  let ?objs = "objs[addr := f (objs ! addr)]"
  from Cons.prems have "a < length ?objs" by simp
  from Cons.IH [OF this] have
    "fold (\<lambda>(nm, addr) objs. objs[addr := f (objs ! addr)]) sys ?objs ! a =
       (if a \<in> snd ` set sys then f (?objs ! a) else ?objs ! a)" .
  with Cons.prems p idem show ?case
    by (cases "a = addr") auto
qed

lemma refresh_system_idem:
  "refresh_system e sg (refresh_system e sg s) = refresh_system e sg s"
  by (simp add: refresh_system_def)

lemma refresh_system_signature [simp]:
  "signature (refresh_system e sg s) = signature s"
  by (simp add: refresh_system_def)

lemma refresh_system_enabled [simp]:
  "enabled (refresh_system e sg s) = enabled s"
  by (simp add: refresh_system_def)

lemma refresh_system_entities:
  "(e' \<in> entities (refresh_system e sg s)) =
     (if e' = e then (sg AND signature s) = signature s else e' \<in> entities s)"
  by (simp add: refresh_system_def)

text \<open>What \<open>updateSystemEntitySets\<close> changes: the entity sets of the registered systems.\<close>

lemma updateSystemEntitySets_frame [simp]:
  "entityManager (updateSystemEntitySets w e sg) = entityManager w"
  "componentManager (updateSystemEntitySets w e sg) = componentManager w"
  "systems (updateSystemEntitySets w e sg) = systems w"
  "systemOrder (updateSystemEntitySets w e sg) = systemOrder w"
  "length (systemObjects (updateSystemEntitySets w e sg)) = length (systemObjects w)"
  by (simp_all add: updateSystemEntitySets_def fold_objects_length)

lemma updateSystemEntitySets_nth:
  assumes "a < length (systemObjects w)"
  shows "systemObjects (updateSystemEntitySets w e sg) ! a =
           (if a \<in> snd ` set (systems w) then refresh_system e sg (systemObjects w ! a)
            else systemObjects w ! a)"
  unfolding updateSystemEntitySets_def
  using fold_objects_nth [of "refresh_system e sg" a "systemObjects w" "systems w",
      OF refresh_system_idem assms]
  by simp

lemma destroy_objects_nth:
  assumes "a < length objs"
  shows "fold (\<lambda>(nm, addr) objs.
                 objs[addr := (objs ! addr)\<lparr>entities := entities (objs ! addr) - {e}\<rparr>])
           sys objs ! a =
         (if a \<in> snd ` set sys then (objs ! a)\<lparr>entities := entities (objs ! a) - {e}\<rparr>
          else objs ! a)"
  using fold_objects_nth [of "\<lambda>s. s\<lparr>entities := entities s - {e}\<rparr>" a objs sys, OF _ assms]
  by simp

lemma destroy_objects_length:
  "length (fold (\<lambda>(nm, addr) objs.
                 objs[addr := (objs ! addr)\<lparr>entities := entities (objs ! addr) - {e}\<rparr>])
           sys objs) = length objs"
  using fold_objects_length [of "\<lambda>s. s\<lparr>entities := entities s - {e}\<rparr>" sys objs]
  by simp

subsection \<open>What each World call changes\<close>

lemma World_createEntity_effect:
  assumes "World_createEntity w = Inr (e, w')"
  obtains rest where
    "availableIds (entityManager w) = e # rest" "livingCount (entityManager w) < MAX_ENTITIES"
    "w' = w\<lparr>entityManager :=
               (entityManager w)\<lparr>availableIds := rest,
                                   livingCount := livingCount (entityManager w) + 1\<rparr>\<rparr>"
  using assms
  by (auto simp: World_createEntity_def EntityManager_createEntity_def
      split: sum.splits list.splits if_splits)

lemma World_registerComponent_effect:
  assumes "World_registerComponent w ti = Inr w'"
  shows "typeToBit (componentManager w) ti = None \<and>
         w' = w\<lparr>componentManager :=
                  \<lparr>typeToBit = (typeToBit (componentManager w))(ti \<mapsto> nextBit (componentManager w)),
                   typeToArray = AList.update ti ComponentArray_new (typeToArray (componentManager w)),
                   nextBit = nextBit (componentManager w) + 1\<rparr>\<rparr>"
  using assms
  by (auto simp: World_registerComponent_def ComponentManager_registerComponent_def
      split: sum.splits if_splits)

lemma World_addComponent_effect:
  assumes "World_addComponent w ti e c = Inr w'"
  obtains a a' b where
    "map_of (typeToArray (componentManager w)) ti = Some a"
    "ComponentArray_insert a e c = Inr a'"
    "typeToBit (componentManager w) ti = Some b" "b < MAX_COMPONENTS" "entity_in_range e"
    "w' = updateSystemEntitySets
            (w\<lparr>componentManager :=
                  (componentManager w)\<lparr>typeToArray := AList.update ti a' (typeToArray (componentManager w))\<rparr>,
               entityManager :=
                  (entityManager w)\<lparr>signatures :=
                     (signatures (entityManager w))(e := set_bit b (signatures (entityManager w) e))\<rparr>\<rparr>)
            e (set_bit b (signatures (entityManager w) e))"
  using assms
  by (auto simp: World_addComponent_def ComponentManager_addComponent_def getComponentArray_def
      getSignature_def getBit_def sig_set_def setSignature_def
      split: sum.splits option.splits if_splits)

lemma World_removeComponent_effect:
  assumes "World_removeComponent w ti e = Inr w'"
  obtains a a' b where
    "map_of (typeToArray (componentManager w)) ti = Some a"
    "ComponentArray_remove a e = Inr a'"
    "typeToBit (componentManager w) ti = Some b" "b < MAX_COMPONENTS" "entity_in_range e"
    "w' = updateSystemEntitySets
            (w\<lparr>componentManager :=
                  (componentManager w)\<lparr>typeToArray := AList.update ti a' (typeToArray (componentManager w))\<rparr>,
               entityManager :=
                  (entityManager w)\<lparr>signatures :=
                     (signatures (entityManager w))(e := unset_bit b (signatures (entityManager w) e))\<rparr>\<rparr>)
            e (unset_bit b (signatures (entityManager w) e))"
  using assms
  by (auto simp: World_removeComponent_def ComponentManager_removeComponent_def
      getComponentArray_def getSignature_def getBit_def sig_reset_def setSignature_def
      split: sum.splits option.splits if_splits)

lemma World_destroyEntity_effect:
  assumes "World_destroyEntity w e = Inr w'"
  obtains arrs where
    "arrays_entityDestroyed (typeToArray (componentManager w)) e = Inr arrs"
    "entity_in_range e"
    "w' = w\<lparr>systemObjects :=
               fold (\<lambda>(nm, addr) objs.
                       objs[addr := (objs ! addr)\<lparr>entities := entities (objs ! addr) - {e}\<rparr>])
                 (systems w) (systemObjects w),
             componentManager := (componentManager w)\<lparr>typeToArray := arrs\<rparr>,
             entityManager :=
               (entityManager w)\<lparr>signatures := (signatures (entityManager w))(e := 0),
                                   availableIds := availableIds (entityManager w) @ [e],
                                   livingCount := livingCount (entityManager w) - 1\<rparr>\<rparr>"
  using assms
  by (auto simp: World_destroyEntity_def ComponentManager_entityDestroyed_def
      EntityManager_destroyEntity_def Let_def
      split: sum.splits option.splits if_splits)

lemma registerSystem_result:
  "registerSystem w T nm sg =
     (length (systemObjects w),
      w\<lparr>systemObjects :=
           systemObjects w @ [\<lparr>entities = {}, name = nm, signature = sg, enabled = True, hook = T\<rparr>],
        systems := AList.update nm (length (systemObjects w)) (systems w),
        systemOrder := systemOrder w @ [nm]\<rparr>)"
  by (simp add: registerSystem_def Let_def)

lemma world_run_append:
  "world_run (xs @ ys) w =
     (case world_run xs w of Inl err \<Rightarrow> Inl err | Inr w' \<Rightarrow> world_run ys w')"
  by (induction xs arbitrary: w) (auto split: sum.splits)

text \<open>The definitions a concrete call sequence is evaluated with.\<close>

lemmas world_eval =
  World_new_def EntityManager_new_eq ComponentManager_new_def ids_from_1_unfold
  World_registerComponent_def ComponentManager_registerComponent_def
  World_createEntity_def EntityManager_createEntity_def
  World_addComponent_def ComponentManager_addComponent_def
  World_removeComponent_def ComponentManager_removeComponent_def
  World_destroyEntity_def ComponentManager_entityDestroyed_def
  ComponentArray_entityDestroyed_def EntityManager_destroyEntity_def
  getComponentArray_def ComponentArray_insert_def ComponentArray_remove_def
  ComponentArray_new_def ComponentArray_has_def
  World_hasComponent_def ComponentManager_hasComponent_def
  getSignature_def setSignature_def entity_in_range_def NULL_ENTITY_def MAX_ENTITIES_def
  getBit_def sig_set_def sig_reset_def MAX_COMPONENTS_def
  updateSystemEntitySets_def refresh_system_def registerSystem_def Let_def

lemma insert_then_remove:
  assumes "ComponentArray_insert a e c = Inr a1"
  shows "ComponentArray_has a1 e \<and>
         (\<exists>a2. ComponentArray_remove a1 e = Inr a2 \<and> \<not> ComponentArray_has a2 e)"
proof -
  from assms have none: "entityToIndex a e = None"
    by (auto simp: ComponentArray_insert_def split: if_splits)
  with assms have a1: "a1 = \<lparr>components = components a @ [c],
                entityToIndex = (entityToIndex a)(e \<mapsto> length (components a)),
                indexToEntity = indexToEntity a @ [e]\<rparr>"
    by (simp add: insert_result)
  show ?thesis
    unfolding a1 by (simp add: ComponentArray_remove_def ComponentArray_has_def)
qed

text \<open>
  Registering the component types \<open>0, ..., n - 1\<close> in this order on a new world gives
  type \<open>k\<close> the bit \<open>k\<close> and an empty array.
\<close>

lemma register_components_run:
  "\<exists>w. world_run (map RegisterComponent [0..<n]) (World_new :: (nat, 'v, 'h) World) = Inr w \<and>
       typeToBit (componentManager w) = (\<lambda>k. if k < n then Some k else None) \<and>
       (\<forall>k. map_of (typeToArray (componentManager w)) k =
             (if k < n then Some ComponentArray_new else None)) \<and>
       nextBit (componentManager w) = n \<and>
       entityManager w = EntityManager_new"
proof (induction n)
  case 0
  show ?case
    by (simp add: World_new_def ComponentManager_new_def)
next
  case (Suc n)
  then obtain w :: "(nat, 'v, 'h) World" where
    r: "world_run (map RegisterComponent [0..<n]) World_new = Inr w"
    and tb: "typeToBit (componentManager w) = (\<lambda>k. if k < n then Some k else None)"
    and ta: "\<forall>k. map_of (typeToArray (componentManager w)) k =
             (if k < n then Some ComponentArray_new else None)"
    and nb: "nextBit (componentManager w) = n"
    and em: "entityManager w = EntityManager_new"
    by blast
  let ?cm = "\<lparr>typeToBit = (typeToBit (componentManager w))(n \<mapsto> n),
              typeToArray = AList.update n ComponentArray_new (typeToArray (componentManager w)),
              nextBit = Suc n\<rparr> :: (nat, 'v) ComponentManager"
  have st: "world_step (RegisterComponent n) w = Inr (w\<lparr>componentManager := ?cm\<rparr>)"
    using tb nb by (simp add: World_registerComponent_def ComponentManager_registerComponent_def)
  have "world_run (map RegisterComponent [0..<Suc n]) World_new =
          Inr (w\<lparr>componentManager := ?cm\<rparr>)"
    using r st by (simp add: world_run_append)
  moreover have "typeToBit ?cm = (\<lambda>k. if k < Suc n then Some k else None)"
    using tb by (auto simp: fun_eq_iff)
  moreover have "\<forall>k. map_of (typeToArray ?cm) k =
             (if k < Suc n then Some ComponentArray_new else None)"
    using ta by (auto simp: update_conv')
  ultimately show ?case
    using em by simp
qed

subsection \<open>System objects along a call sequence\<close>

text \<open>An allocated object keeps its address and its required signature.\<close>

lemma step_keeps_object:
  assumes st: "world_step x w = Inr w'" and a: "addr < length (systemObjects w)"
  shows "addr < length (systemObjects w') \<and>
         signature (systemObjects w' ! addr) = signature (systemObjects w ! addr)"
proof (cases x)
  case CreateEntity
  with st obtain e where "World_createEntity w = Inr (e, w')"
    by (auto split: sum.splits)
  then show ?thesis
    by (rule World_createEntity_effect) (use a in simp)
next
  case (DestroyEntity e)
  with st have "World_destroyEntity w e = Inr w'" by simp
  then show ?thesis
    by (rule World_destroyEntity_effect)
      (use a in \<open>simp add: destroy_objects_length destroy_objects_nth\<close>)
next
  case (RegisterComponent ti)
  with st a World_registerComponent_effect [of w ti w'] show ?thesis
    by auto
next
  case (AddComponent ti e c)
  with st have "World_addComponent w ti e c = Inr w'" by simp
  then show ?thesis
    by (rule World_addComponent_effect) (use a in \<open>simp add: updateSystemEntitySets_nth\<close>)
next
  case (RemoveComponent ti e)
  with st have "World_removeComponent w ti e = Inr w'" by simp
  then show ?thesis
    by (rule World_removeComponent_effect) (use a in \<open>simp add: updateSystemEntitySets_nth\<close>)
next
  case (RegisterSystem T nm sg)
  with st a show ?thesis
    by (auto simp: registerSystem_def Let_def nth_append)
qed

lemma run_keeps_object:
  "world_run ops w = Inr w' \<Longrightarrow> addr < length (systemObjects w) \<Longrightarrow>
   addr < length (systemObjects w') \<and>
   signature (systemObjects w' ! addr) = signature (systemObjects w ! addr)"
proof (induction ops arbitrary: w)
  case Nil
  then show ?case by simp
next
  case (Cons x xs)
  from Cons.prems(1) obtain w1 where st: "world_step x w = Inr w1" and run: "world_run xs w1 = Inr w'"
    by (auto split: sum.splits)
  from step_keeps_object [OF st Cons.prems(2)] Cons.IH [OF run] show ?case
    by simp
qed

text \<open>
  Only an \<open>addComponent\<close> or \<open>removeComponent\<close> on \<open>e\<close> can put \<open>e\<close> into a system's
  set.
\<close>

lemma step_keeps_nonmember:
  assumes st: "world_step x w = Inr w'" and nr: "\<not> refreshes e x"
    and a: "addr < length (systemObjects w)"
    and out: "e \<notin> entities (systemObjects w ! addr)"
  shows "e \<notin> entities (systemObjects w' ! addr)"
proof (cases x)
  case CreateEntity
  with st obtain e0 where "World_createEntity w = Inr (e0, w')"
    by (auto split: sum.splits)
  then show ?thesis
    by (rule World_createEntity_effect) (use out in simp)
next
  case (DestroyEntity e0)
  with st have "World_destroyEntity w e0 = Inr w'" by simp
  then show ?thesis
    by (rule World_destroyEntity_effect) (use a out in \<open>simp add: destroy_objects_nth\<close>)
next
  case (RegisterComponent ti)
  with st out World_registerComponent_effect [of w ti w'] show ?thesis
    by auto
next
  case (AddComponent ti e0 c)
  with nr have ne: "e \<noteq> e0" by auto
  from st AddComponent have "World_addComponent w ti e0 c = Inr w'" by simp
  then show ?thesis
    by (rule World_addComponent_effect)
      (use a out ne in \<open>simp add: updateSystemEntitySets_nth refresh_system_entities\<close>)
next
  case (RemoveComponent ti e0)
  with nr have ne: "e \<noteq> e0" by auto
  from st RemoveComponent have "World_removeComponent w ti e0 = Inr w'" by simp
  then show ?thesis
    by (rule World_removeComponent_effect)
      (use a out ne in \<open>simp add: updateSystemEntitySets_nth refresh_system_entities\<close>)
next
  case (RegisterSystem T nm sg)
  with st a out show ?thesis
    by (auto simp: registerSystem_def Let_def nth_append)
qed

lemma run_keeps_nonmember:
  "world_run ops w = Inr w' \<Longrightarrow> \<forall>x \<in> set ops. \<not> refreshes e x \<Longrightarrow>
   addr < length (systemObjects w) \<Longrightarrow> e \<notin> entities (systemObjects w ! addr) \<Longrightarrow>
   e \<notin> entities (systemObjects w' ! addr)"
proof (induction ops arbitrary: w)
  case Nil
  then show ?case by simp
next
  case (Cons x xs)
  from Cons.prems(1) obtain w1 where st: "world_step x w = Inr w1" and run: "world_run xs w1 = Inr w'"
    by (auto split: sum.splits)
  from Cons.prems(2) have nr: "\<not> refreshes e x" and rest: "\<forall>x \<in> set xs. \<not> refreshes e x"
    by simp_all
  from step_keeps_nonmember [OF st nr Cons.prems(3,4)]
  have "e \<notin> entities (systemObjects w1 ! addr)" .
  moreover from step_keeps_object [OF st Cons.prems(3)] have "addr < length (systemObjects w1)"
    by simp
  ultimately show ?case
    using Cons.IH [OF run rest] by simp
qed

text \<open>An \<open>addComponent\<close> or \<open>removeComponent\<close> on \<open>e\<close> refreshes every registered system.\<close>

lemma step_refreshes_member:
  assumes st: "world_step x w = Inr w'" and rf: "refreshes e x"
    and reg: "addr \<in> snd ` set (systems w)" and a: "addr < length (systemObjects w)"
  shows "(e \<in> entities (systemObjects w' ! addr)) =
           ((signatures (entityManager w') e AND signature (systemObjects w ! addr)) =
              signature (systemObjects w ! addr))"
proof (cases x)
  case (AddComponent ti e0 c)
  with rf have "e0 = e" by simp
  with st AddComponent have "World_addComponent w ti e c = Inr w'" by simp
  then show ?thesis
    by (rule World_addComponent_effect)
      (use reg a in \<open>simp add: updateSystemEntitySets_nth refresh_system_entities\<close>)
next
  case (RemoveComponent ti e0)
  with rf have "e0 = e" by simp
  with st RemoveComponent have "World_removeComponent w ti e = Inr w'" by simp
  then show ?thesis
    by (rule World_removeComponent_effect)
      (use reg a in \<open>simp add: updateSystemEntitySets_nth refresh_system_entities\<close>)
qed (use rf in simp_all)

subsection \<open>The update loop\<close>

lemma dispatch_ok_new: "dispatch_ok World_new"
  by (simp add: dispatch_ok_def World_new_def)

lemma dispatch_ok_registerSystem:
  assumes "dispatch_ok w"
  shows "dispatch_ok (snd (registerSystem w T nm sg))"
  using assms
  by (auto simp: dispatch_ok_def registerSystem_result update_conv' less_Suc_eq)

lemma step_dispatch_ok:
  assumes st: "world_step x w = Inr w'" and ok: "dispatch_ok w"
  shows "dispatch_ok w'"
proof (cases x)
  case CreateEntity
  with st obtain e where "World_createEntity w = Inr (e, w')"
    by (auto split: sum.splits)
  then show ?thesis
    by (rule World_createEntity_effect) (use ok in \<open>simp add: dispatch_ok_def\<close>)
next
  case (DestroyEntity e)
  with st have "World_destroyEntity w e = Inr w'" by simp
  then show ?thesis
    by (rule World_destroyEntity_effect)
      (use ok in \<open>simp add: dispatch_ok_def destroy_objects_length\<close>)
next
  case (RegisterComponent ti)
  with st have "World_registerComponent w ti = Inr w'" by simp
  from World_registerComponent_effect [OF this] ok show ?thesis
    by (auto simp: dispatch_ok_def)
next
  case (AddComponent ti e c)
  with st have "World_addComponent w ti e c = Inr w'" by simp
  then show ?thesis
    by (rule World_addComponent_effect) (use ok in \<open>simp add: dispatch_ok_def\<close>)
next
  case (RemoveComponent ti e)
  with st have "World_removeComponent w ti e = Inr w'" by simp
  then show ?thesis
    by (rule World_removeComponent_effect) (use ok in \<open>simp add: dispatch_ok_def\<close>)
next
  case (RegisterSystem T nm sg)
  with st dispatch_ok_registerSystem [OF ok, of T nm sg] show ?thesis
    by simp
qed

lemma run_dispatch_ok:
  "world_run ops w = Inr w' \<Longrightarrow> dispatch_ok w \<Longrightarrow> dispatch_ok w'"
proof (induction ops arbitrary: w)
  case Nil
  then show ?case by simp
next
  case (Cons x xs)
  from Cons.prems(1) obtain w1 where st: "world_step x w = Inr w1" and run: "world_run xs w1 = Inr w'"
    by (auto split: sum.splits)
  from run step_dispatch_ok [OF st Cons.prems(2)] show ?case
    by (rule Cons.IH)
qed

subsection \<open>Invariants of the World along a call sequence\<close>

lemma set_update_subset: "set (AList.update k v al) \<subseteq> insert (k, v) (set al)"
  by (induction al) auto

lemma list_all2_in_set2:
  "list_all2 P xs ys \<Longrightarrow> y \<in> set ys \<Longrightarrow> \<exists>x \<in> set xs. P x y"
  by (induction rule: list_all2_induct) auto

lemma arrays_entityDestroyed_rel:
  "arrays_entityDestroyed al e = Inr al' \<Longrightarrow>
   list_all2 (\<lambda>p q. ComponentArray_entityDestroyed (snd p) e = Inr (snd q)) al al'"
proof (induction al arbitrary: al')
  case Nil
  then show ?case by simp
next
  case (Cons p al)
  obtain ti a where p: "p = (ti, a)" by (cases p)
  from Cons.prems p obtain a' rest where
    "ComponentArray_entityDestroyed a e = Inr a'"
    "arrays_entityDestroyed al e = Inr rest" "al' = (ti, a') # rest"
    by (auto split: sum.splits)
  with Cons.IH [of rest] p show ?case by simp
qed

lemma entityDestroyed_array:
  assumes inv: "dense_inv a" and d: "ComponentArray_entityDestroyed a e = Inr a'"
  shows "dense_inv a' \<and> \<not> ComponentArray_has a' e \<and>
         (\<forall>e'. e' \<noteq> e \<longrightarrow> ComponentArray_has a' e' = ComponentArray_has a e')"
proof (cases "entityToIndex a e")
  case None
  with d have "a' = a" by (simp add: ComponentArray_entityDestroyed_def)
  with None inv show ?thesis by (simp add: ComponentArray_has_def)
next
  case (Some i)
  with d have rm: "ComponentArray_remove a e = Inr a'"
    by (simp add: ComponentArray_entityDestroyed_def)
  from remove_inv [OF inv rm] remove_has [OF inv Some rm] show ?thesis
    by simp
qed

lemma World_new_invariants:
  "arrays_ok World_new" "systems_ok World_new" "carries_nothing World_new e"
  by (simp_all add: arrays_ok_def systems_ok_def carries_nothing_def World_new_def
      ComponentManager_new_def EntityManager_new_eq)

lemma step_arrays_ok:
  assumes st: "world_step x w = Inr w'" and ok: "arrays_ok w"
  shows "arrays_ok w'"
proof (cases x)
  case CreateEntity
  with st obtain e where "World_createEntity w = Inr (e, w')"
    by (auto split: sum.splits)
  then show ?thesis
    by (rule World_createEntity_effect) (use ok in \<open>simp add: arrays_ok_def\<close>)
next
  case (DestroyEntity e)
  with st have "World_destroyEntity w e = Inr w'" by simp
  then obtain arrs where
    d: "arrays_entityDestroyed (typeToArray (componentManager w)) e = Inr arrs"
    and ta: "typeToArray (componentManager w') = arrs"
    by (rule World_destroyEntity_effect) simp
  have "dense_inv (snd q)" if "q \<in> set arrs" for q
  proof -
    from list_all2_in_set2 [OF arrays_entityDestroyed_rel [OF d] that] obtain p where
      "p \<in> set (typeToArray (componentManager w))"
      "ComponentArray_entityDestroyed (snd p) e = Inr (snd q)"
      by blast
    with ok entityDestroyed_array [of "snd p" e "snd q"] show ?thesis
      by (auto simp: arrays_ok_def)
  qed
  with ta show ?thesis by (simp add: arrays_ok_def)
next
  case (RegisterComponent ti)
  with st have "World_registerComponent w ti = Inr w'" by simp
  from World_registerComponent_effect [OF this] ok
    set_update_subset [of ti ComponentArray_new "typeToArray (componentManager w)"]
  show ?thesis
    by (auto simp: arrays_ok_def dense_inv_new)
next
  case (AddComponent ti e c)
  with st have "World_addComponent w ti e c = Inr w'" by simp
  then obtain a a' where
    arr: "map_of (typeToArray (componentManager w)) ti = Some a"
    and ins: "ComponentArray_insert a e c = Inr a'"
    and ta: "typeToArray (componentManager w') =
               AList.update ti a' (typeToArray (componentManager w))"
    by (rule World_addComponent_effect) simp
  from arr have "(ti, a) \<in> set (typeToArray (componentManager w))"
    by (rule map_of_SomeD)
  with ok have "dense_inv a" by (auto simp: arrays_ok_def)
  from insert_inv [OF this ins] ok ta
    set_update_subset [of ti a' "typeToArray (componentManager w)"]
  show ?thesis
    by (auto simp: arrays_ok_def)
next
  case (RemoveComponent ti e)
  with st have "World_removeComponent w ti e = Inr w'" by simp
  then obtain a a' where
    arr: "map_of (typeToArray (componentManager w)) ti = Some a"
    and rm: "ComponentArray_remove a e = Inr a'"
    and ta: "typeToArray (componentManager w') =
               AList.update ti a' (typeToArray (componentManager w))"
    by (rule World_removeComponent_effect) simp
  from arr have "(ti, a) \<in> set (typeToArray (componentManager w))"
    by (rule map_of_SomeD)
  with ok have "dense_inv a" by (auto simp: arrays_ok_def)
  from remove_inv [OF this rm] ok ta
    set_update_subset [of ti a' "typeToArray (componentManager w)"]
  show ?thesis
    by (auto simp: arrays_ok_def)
next
  case (RegisterSystem T nm sg)
  with st ok show ?thesis
    by (auto simp: registerSystem_result arrays_ok_def)
qed

lemma step_systems_ok:
  assumes st: "world_step x w = Inr w'" and ok: "systems_ok w"
  shows "systems_ok w'"
proof (cases x)
  case CreateEntity
  with st obtain e where "World_createEntity w = Inr (e, w')"
    by (auto split: sum.splits)
  then show ?thesis
    by (rule World_createEntity_effect) (use ok in \<open>simp add: systems_ok_def\<close>)
next
  case (DestroyEntity e)
  with st have "World_destroyEntity w e = Inr w'" by simp
  then show ?thesis
    by (rule World_destroyEntity_effect)
      (use ok in \<open>simp add: systems_ok_def destroy_objects_length\<close>)
next
  case (RegisterComponent ti)
  with st have "World_registerComponent w ti = Inr w'" by simp
  from World_registerComponent_effect [OF this] ok show ?thesis
    by (auto simp: systems_ok_def)
next
  case (AddComponent ti e c)
  with st have "World_addComponent w ti e c = Inr w'" by simp
  then show ?thesis
    by (rule World_addComponent_effect) (use ok in \<open>simp add: systems_ok_def\<close>)
next
  case (RemoveComponent ti e)
  with st have "World_removeComponent w ti e = Inr w'" by simp
  then show ?thesis
    by (rule World_removeComponent_effect) (use ok in \<open>simp add: systems_ok_def\<close>)
next
  case (RegisterSystem T nm sg)
  with st have w': "systemObjects w' = systemObjects w @
        [\<lparr>entities = {}, name = nm, signature = sg, enabled = True, hook = T\<rparr>]"
    "systems w' = AList.update nm (length (systemObjects w)) (systems w)"
    by (auto simp: registerSystem_result)
  have "addr < length (systemObjects w')" if "addr \<in> snd ` set (systems w')" for addr
  proof -
    from that obtain k where "(k, addr) \<in> set (systems w')" by auto
    with set_update_subset [of nm "length (systemObjects w)" "systems w"]
    have "addr = length (systemObjects w) \<or> (k, addr) \<in> set (systems w)"
      by (auto simp: w')
    then show ?thesis
    proof
      assume "addr = length (systemObjects w)"
      then show ?thesis by (simp add: w')
    next
      assume "(k, addr) \<in> set (systems w)"
      then have "addr \<in> snd ` set (systems w)" by force
      with ok have "addr < length (systemObjects w)" by (auto simp: systems_ok_def)
      then show ?thesis by (simp add: w')
    qed
  qed
  then show ?thesis by (simp add: systems_ok_def)
qed

lemma run_systems_ok:
  "world_run ops w = Inr w' \<Longrightarrow> systems_ok w \<Longrightarrow> systems_ok w'"
proof (induction ops arbitrary: w)
  case Nil
  then show ?case by simp
next
  case (Cons x xs)
  from Cons.prems(1) obtain w1 where st: "world_step x w = Inr w1" and run: "world_run xs w1 = Inr w'"
    by (auto split: sum.splits)
  from run step_systems_ok [OF st Cons.prems(2)] show ?case
    by (rule Cons.IH)
qed

text \<open>
  An id that carries nothing keeps carrying nothing until a component is added to it,
  and \<open>destroyEntity\<close> makes its argument carry nothing.
\<close>

lemma step_carries_nothing:
  assumes st: "world_step x w = Inr w'" and aok: "arrays_ok w" and sok: "systems_ok w"
    and pre: "b \<or> carries_nothing w e"
  shows "component_added_step e b x \<or> carries_nothing w' e"
proof (cases x)
  case CreateEntity
  with st obtain e0 where "World_createEntity w = Inr (e0, w')"
    by (auto split: sum.splits)
  then have "carries_nothing w' e = carries_nothing w e"
    by (rule World_createEntity_effect) (simp add: carries_nothing_def)
  with pre CreateEntity show ?thesis by auto
next
  case (DestroyEntity e0)
  with st have "World_destroyEntity w e0 = Inr w'" by simp
  then obtain arrs where
    d: "arrays_entityDestroyed (typeToArray (componentManager w)) e0 = Inr arrs"
    and ta: "typeToArray (componentManager w') = arrs"
    and sg: "signatures (entityManager w') = (signatures (entityManager w))(e0 := 0)"
    and sy: "systems w' = systems w"
    and ob: "systemObjects w' =
               fold (\<lambda>(nm, addr) objs.
                       objs[addr := (objs ! addr)\<lparr>entities := entities (objs ! addr) - {e0}\<rparr>])
                 (systems w) (systemObjects w)"
    by (rule World_destroyEntity_effect) simp
  have arr: "\<not> ComponentArray_has (snd q) e"
    if q: "q \<in> set arrs" and c: "e0 = e \<or> carries_nothing w e" for q
  proof -
    from list_all2_in_set2 [OF arrays_entityDestroyed_rel [OF d] q] obtain p where
      p: "p \<in> set (typeToArray (componentManager w))"
      and pq: "ComponentArray_entityDestroyed (snd p) e0 = Inr (snd q)"
      by blast
    from aok p have "dense_inv (snd p)" by (auto simp: arrays_ok_def)
    from entityDestroyed_array [OF this pq] c p show ?thesis
      by (auto simp: carries_nothing_def)
  qed
  have mem: "e \<notin> entities (systemObjects w' ! addr)"
    if a: "addr \<in> snd ` set (systems w)" and c: "e0 = e \<or> carries_nothing w e" for addr
  proof -
    from sok a have "addr < length (systemObjects w)" by (auto simp: systems_ok_def)
    with a c show ?thesis
      by (auto simp: ob destroy_objects_nth carries_nothing_def)
  qed
  show ?thesis
  proof (cases "e0 = e")
    case True
    with arr mem ta sg sy have "carries_nothing w' e"
      by (simp add: carries_nothing_def)
    then show ?thesis ..
  next
    case False
    show ?thesis
    proof (cases b)
      case True
      with False DestroyEntity show ?thesis by simp
    next
      case nb: False
      with pre have c: "carries_nothing w e" by simp
      with arr mem ta sg sy False have "carries_nothing w' e"
        by (simp add: carries_nothing_def)
      then show ?thesis ..
    qed
  qed
next
  case (RegisterComponent ti)
  with st have "World_registerComponent w ti = Inr w'" by simp
  from World_registerComponent_effect [OF this]
    set_update_subset [of ti ComponentArray_new "typeToArray (componentManager w)"]
  have "carries_nothing w e \<Longrightarrow> carries_nothing w' e"
    by (auto simp: carries_nothing_def ComponentArray_has_def ComponentArray_new_def)
  with pre RegisterComponent show ?thesis by auto
next
  case (AddComponent ti e0 c)
  show ?thesis
  proof (cases "b \<or> e0 = e")
    case True
    with AddComponent show ?thesis by simp
  next
    case False
    with pre have cn: "carries_nothing w e" and ne: "e \<noteq> e0" by auto
    from st AddComponent have "World_addComponent w ti e0 c = Inr w'" by simp
    then obtain a a' b0 where
      arr: "map_of (typeToArray (componentManager w)) ti = Some a"
      and ins: "ComponentArray_insert a e0 c = Inr a'"
      and w': "w' = updateSystemEntitySets
            (w\<lparr>componentManager :=
                  (componentManager w)\<lparr>typeToArray := AList.update ti a' (typeToArray (componentManager w))\<rparr>,
               entityManager :=
                  (entityManager w)\<lparr>signatures :=
                     (signatures (entityManager w))(e0 := set_bit b0 (signatures (entityManager w) e0))\<rparr>\<rparr>)
            e0 (set_bit b0 (signatures (entityManager w) e0))"
      by (rule World_addComponent_effect)
    from arr have "(ti, a) \<in> set (typeToArray (componentManager w))"
      by (rule map_of_SomeD)
    with cn have "\<not> ComponentArray_has a e" by (auto simp: carries_nothing_def)
    with ins ne have na: "\<not> ComponentArray_has a' e"
      by (auto simp: ComponentArray_insert_def ComponentArray_has_def split: if_splits)
    have arrs: "\<not> ComponentArray_has (snd q) e"
      if "q \<in> set (AList.update ti a' (typeToArray (componentManager w)))" for q
      using that na cn set_update_subset [of ti a' "typeToArray (componentManager w)"]
      by (auto simp: carries_nothing_def)
    have mem: "e \<notin> entities (systemObjects w' ! addr)"
      if a: "addr \<in> snd ` set (systems w)" for addr
    proof -
      from sok a have "addr < length (systemObjects w)" by (auto simp: systems_ok_def)
      with a cn ne show ?thesis
        by (auto simp: w' updateSystemEntitySets_nth refresh_system_entities carries_nothing_def)
    qed
    from cn ne arrs mem have "carries_nothing w' e"
      unfolding carries_nothing_def by (simp add: w')
    then show ?thesis ..
  qed
next
  case (RemoveComponent ti e0)
  show ?thesis
  proof (cases b)
    case True
    with RemoveComponent show ?thesis by simp
  next
    case False
    with pre have cn: "carries_nothing w e" by simp
    from st RemoveComponent have "World_removeComponent w ti e0 = Inr w'" by simp
    then obtain a a' b0 where
      arr: "map_of (typeToArray (componentManager w)) ti = Some a"
      and rm: "ComponentArray_remove a e0 = Inr a'"
      and w': "w' = updateSystemEntitySets
            (w\<lparr>componentManager :=
                  (componentManager w)\<lparr>typeToArray := AList.update ti a' (typeToArray (componentManager w))\<rparr>,
               entityManager :=
                  (entityManager w)\<lparr>signatures :=
                     (signatures (entityManager w))(e0 := unset_bit b0 (signatures (entityManager w) e0))\<rparr>\<rparr>)
            e0 (unset_bit b0 (signatures (entityManager w) e0))"
      by (rule World_removeComponent_effect)
    from arr have in_set: "(ti, a) \<in> set (typeToArray (componentManager w))"
      by (rule map_of_SomeD)
    with cn have nh: "\<not> ComponentArray_has a e" by (auto simp: carries_nothing_def)
    from in_set aok have inv: "dense_inv a" by (auto simp: arrays_ok_def)
    from rm obtain i where i: "entityToIndex a e0 = Some i"
      by (cases "entityToIndex a e0") (auto simp: remove_fails)
    with nh have ne: "e \<noteq> e0" by (auto simp: ComponentArray_has_def)
    from remove_has [OF inv i rm, of e] nh have na: "\<not> ComponentArray_has a' e"
      by simp
    have arrs: "\<not> ComponentArray_has (snd q) e"
      if "q \<in> set (AList.update ti a' (typeToArray (componentManager w)))" for q
      using that na cn set_update_subset [of ti a' "typeToArray (componentManager w)"]
      by (auto simp: carries_nothing_def)
    have mem: "e \<notin> entities (systemObjects w' ! addr)"
      if a: "addr \<in> snd ` set (systems w)" for addr
    proof -
      from sok a have "addr < length (systemObjects w)" by (auto simp: systems_ok_def)
      with a cn ne show ?thesis
        by (auto simp: w' updateSystemEntitySets_nth refresh_system_entities carries_nothing_def)
    qed
    from cn ne arrs mem have "carries_nothing w' e"
      unfolding carries_nothing_def by (simp add: w')
    then show ?thesis ..
  qed
next
  case (RegisterSystem T nm sg)
  show ?thesis
  proof (cases b)
    case True
    with RegisterSystem show ?thesis by simp
  next
    case False
    with pre have cn: "carries_nothing w e" by simp
    from st RegisterSystem have w': "systemObjects w' = systemObjects w @
          [\<lparr>entities = {}, name = nm, signature = sg, enabled = True, hook = T\<rparr>]"
      "systems w' = AList.update nm (length (systemObjects w)) (systems w)"
      "entityManager w' = entityManager w" "componentManager w' = componentManager w"
      by (auto simp: registerSystem_result)
    have mem: "e \<notin> entities (systemObjects w' ! addr)"
      if "addr \<in> snd ` set (systems w')" for addr
    proof -
      from that obtain k where "(k, addr) \<in> set (systems w')" by auto
      with set_update_subset [of nm "length (systemObjects w)" "systems w"]
      have "addr = length (systemObjects w) \<or> (k, addr) \<in> set (systems w)"
        by (auto simp: w')
      then show ?thesis
      proof
        assume "addr = length (systemObjects w)"
        then show ?thesis by (simp add: w')
      next
        assume "(k, addr) \<in> set (systems w)"
        then have a: "addr \<in> snd ` set (systems w)" by force
        with sok have "addr < length (systemObjects w)" by (auto simp: systems_ok_def)
        with a cn show ?thesis by (auto simp: w' nth_append carries_nothing_def)
      qed
    qed
    with cn have "carries_nothing w' e"
      unfolding carries_nothing_def by (simp add: w')
    then show ?thesis ..
  qed
qed

lemma run_carries_nothing:
  "world_run ops w = Inr w' \<Longrightarrow> arrays_ok w \<Longrightarrow> systems_ok w \<Longrightarrow>
   b \<or> carries_nothing w e \<Longrightarrow>
   foldl (component_added_step e) b ops \<or> carries_nothing w' e"
proof (induction ops arbitrary: w b)
  case Nil
  then show ?case by simp
next
  case (Cons x xs)
  from Cons.prems(1) obtain w1 where st: "world_step x w = Inr w1" and run: "world_run xs w1 = Inr w'"
    by (auto split: sum.splits)
  from step_carries_nothing [OF st Cons.prems(2,3,4)]
  have "component_added_step e b x \<or> carries_nothing w1 e" .
  from Cons.IH [OF run step_arrays_ok [OF st Cons.prems(2)] step_systems_ok [OF st Cons.prems(3)] this]
  show ?case by simp
qed

subsection \<open>The claims about the World\<close>

text \<open>
  C5. \<open>isAlive\<close> never fails; it is false for the null id and for ids above
  \<open>MAX_ENTITIES\<close>, and for every other id it is true exactly when the signature stored
  for the id has a bit set.
\<close>

theorem isAlive_iff:
  "World_isAlive w e =
     Inr (e \<noteq> NULL_ENTITY \<and> e \<le> MAX_ENTITIES \<and>
          (\<exists>i < MAX_COMPONENTS. bit (signatures (entityManager w) e) i))"
proof (cases "e = NULL_ENTITY \<or> e > MAX_ENTITIES")
  case True
  then show ?thesis
    by (auto simp: World_isAlive_def)
next
  case False
  then have "entity_in_range e"
    by (simp add: entity_in_range_alt)
  with False show ?thesis
    by (auto simp: World_isAlive_def getSignature_def sig_any_iff)
qed

theorem isAlive_iff_witness:
  "World_isAlive
     ((World_new :: (nat, unit, unit) World)
        \<lparr>entityManager := EntityManager_new\<lparr>signatures := (\<lambda>_. 0)(5 := 1)\<rparr>\<rparr>) 5 = Inr True \<and>
   World_isAlive
     ((World_new :: (nat, unit, unit) World)
        \<lparr>entityManager := EntityManager_new\<lparr>signatures := (\<lambda>_. 0)(5 := 1)\<rparr>\<rparr>) 6 = Inr False \<and>
   World_isAlive
     ((World_new :: (nat, unit, unit) World)
        \<lparr>entityManager := EntityManager_new\<lparr>signatures := (\<lambda>_. 0)(5 := 1)\<rparr>\<rparr>) 0 = Inr False \<and>
   World_isAlive
     ((World_new :: (nat, unit, unit) World)
        \<lparr>entityManager := EntityManager_new\<lparr>signatures := (\<lambda>_. 0)(5 := 1)\<rparr>\<rparr>) 4097 = Inr False"
proof -
  have "\<exists>i < MAX_COMPONENTS. bit (1 :: Signature) i"
    by (rule exI [of _ 0]) (simp add: MAX_COMPONENTS_def)
  then show ?thesis
    by (simp add: isAlive_iff NULL_ENTITY_def MAX_ENTITIES_def)
qed

text \<open>
  C6, as stated, fails for a registered type whose bit index is beyond the signature's
  width: \<open>registerComponent\<close> hands out bit indices without a bound, and the 65th
  registered type gets bit 64. \<open>addComponent\<close> of that type stores the component and then
  \<open>bitset::set (64)\<close> throws \<open>std::out_of_range\<close>.
\<close>

theorem sixty_fifth_type_cannot_be_added:
  "(case world_run (map RegisterComponent [0..<65]) (World_new :: (nat, unit, unit) World) of
      Inl err \<Rightarrow> False
    | Inr w \<Rightarrow>
        entity_in_range 1 \<and>
        getBit (componentManager w) 64 = Inr 64 \<and>
        World_hasComponent w 64 1 = Inr False \<and>
        World_addComponent w 64 1 () = Inl OutOfRange)"
proof -
  from register_components_run [of 65] obtain w :: "(nat, unit, unit) World" where
    r: "world_run (map RegisterComponent [0..<65]) World_new = Inr w"
    and tb: "typeToBit (componentManager w) = (\<lambda>k. if k < 65 then Some k else None)"
    and ta: "\<forall>k. map_of (typeToArray (componentManager w)) k =
             (if k < 65 then Some ComponentArray_new else None)"
    and em: "entityManager w = EntityManager_new"
    by blast
  from ta have arr: "map_of (typeToArray (componentManager w)) 64 = Some ComponentArray_new"
    by simp
  have rng: "entity_in_range 1"
    by (simp add: entity_in_range_def NULL_ENTITY_def MAX_ENTITIES_def)
  have "getBit (componentManager w) 64 = Inr 64"
    using tb by (simp add: getBit_def)
  moreover have "World_hasComponent w 64 1 = Inr False"
    using arr by (simp add: World_hasComponent_def ComponentManager_hasComponent_def
        getComponentArray_def ComponentArray_has_def ComponentArray_new_def)
  moreover have "World_addComponent w 64 1 () = Inl OutOfRange"
    using arr tb em rng
    by (simp add: World_addComponent_def ComponentManager_addComponent_def
        getComponentArray_def ComponentArray_insert_def ComponentArray_new_def
        getSignature_def getBit_def sig_set_def MAX_COMPONENTS_def)
  ultimately show ?thesis
    using r rng by simp
qed

text \<open>
  C6, amended. For a registered component type \<open>T\<close> whose bit index is below
  \<open>MAX_COMPONENTS\<close>, an entity id \<open>e\<close> in the valid range without a \<open>T\<close> component and
  any value: \<open>addComponent\<close> succeeds and sets the component and the bit, the following
  \<open>removeComponent\<close> succeeds, and afterwards \<open>hasComponent\<close> is false and the bit for
  \<open>T\<close> is clear in the stored signature of \<open>e\<close>.
\<close>

theorem add_then_remove_component:
  assumes range: "entity_in_range e"
    and bit: "getBit (componentManager w) ti = Inr b" and width: "b < MAX_COMPONENTS"
    and absent: "World_hasComponent w ti e = Inr False"
  shows "\<exists>w1 w2.
           World_addComponent w ti e c = Inr w1 \<and>
           World_hasComponent w1 ti e = Inr True \<and>
           bit (signatures (entityManager w1) e) b \<and>
           World_removeComponent w1 ti e = Inr w2 \<and>
           World_hasComponent w2 ti e = Inr False \<and>
           \<not> bit (signatures (entityManager w2) e) b"
proof -
  let ?cm = "componentManager w" and ?em = "entityManager w"
  from absent obtain a where arr: "map_of (typeToArray ?cm) ti = Some a"
    and none: "entityToIndex a e = None"
    by (auto simp: World_hasComponent_def ComponentManager_hasComponent_def
        getComponentArray_def ComponentArray_has_def split: option.splits)
  from bit have tb: "typeToBit ?cm ti = Some b"
    by (auto simp: getBit_def split: option.splits)
  from none obtain a1 where ins: "ComponentArray_insert a e c = Inr a1"
    by (simp add: insert_result)
  from insert_then_remove [OF ins] obtain a2 where
    h1: "ComponentArray_has a1 e" and rm: "ComponentArray_remove a1 e = Inr a2"
    and h2: "\<not> ComponentArray_has a2 e"
    by blast
  let ?sg1 = "set_bit b (signatures ?em e)"
  let ?cm1 = "?cm\<lparr>typeToArray := AList.update ti a1 (typeToArray ?cm)\<rparr>"
  let ?em1 = "?em\<lparr>signatures := (signatures ?em)(e := ?sg1)\<rparr>"
  let ?w1 = "updateSystemEntitySets (w\<lparr>componentManager := ?cm1, entityManager := ?em1\<rparr>) e ?sg1"
  let ?sg2 = "unset_bit b ?sg1"
  let ?cm2 = "?cm1\<lparr>typeToArray := AList.update ti a2 (typeToArray ?cm1)\<rparr>"
  let ?em2 = "?em1\<lparr>signatures := (signatures ?em1)(e := ?sg2)\<rparr>"
  let ?w2 = "updateSystemEntitySets (?w1\<lparr>componentManager := ?cm2, entityManager := ?em2\<rparr>) e ?sg2"
  have add: "World_addComponent w ti e c = Inr ?w1"
    using arr ins tb width range
    by (simp add: World_addComponent_def ComponentManager_addComponent_def
        getComponentArray_def getSignature_def getBit_def sig_set_def setSignature_def)
  have arr1: "map_of (typeToArray ?cm1) ti = Some a1"
    by (simp add: update_conv')
  have has1: "World_hasComponent ?w1 ti e = Inr True"
    using arr1 h1
    by (simp add: World_hasComponent_def ComponentManager_hasComponent_def getComponentArray_def)
  from width have pb: "b < 64" by (simp add: MAX_COMPONENTS_def)
  then have bit1: "bit (signatures (entityManager ?w1) e) b"
    by (simp add: bit_set_bit_iff)
  have remove: "World_removeComponent ?w1 ti e = Inr ?w2"
    using arr1 rm tb width range
    by (simp add: World_removeComponent_def ComponentManager_removeComponent_def
        getComponentArray_def getSignature_def getBit_def sig_reset_def setSignature_def)
  have has2: "World_hasComponent ?w2 ti e = Inr False"
    using h2
    by (simp add: World_hasComponent_def ComponentManager_hasComponent_def getComponentArray_def
        update_conv')
  have bit2: "\<not> bit (signatures (entityManager ?w2) e) b"
    by (simp add: bit_unset_bit_iff)
  from add has1 bit1 remove has2 bit2 show ?thesis
    by blast
qed

theorem add_then_remove_component_witness:
  "\<exists>w w1 w2. world_run [RegisterComponent 0, CreateEntity]
               (World_new :: (nat, unit, unit) World) = Inr w \<and>
            entity_in_range 1 \<and> getBit (componentManager w) 0 = Inr 0 \<and>
            0 < MAX_COMPONENTS \<and> World_hasComponent w 0 1 = Inr False \<and>
            World_addComponent w 0 1 () = Inr w1 \<and>
            World_removeComponent w1 0 1 = Inr w2 \<and>
            World_hasComponent w2 0 1 = Inr False \<and>
            \<not> bit (signatures (entityManager w2) 1) 0"
proof -
  have "\<exists>w. world_run [RegisterComponent 0, CreateEntity]
               (World_new :: (nat, unit, unit) World) = Inr w \<and>
            getBit (componentManager w) 0 = Inr 0 \<and> World_hasComponent w 0 1 = Inr False"
    by (simp add: world_eval)
  then obtain w where
    r: "world_run [RegisterComponent 0, CreateEntity]
               (World_new :: (nat, unit, unit) World) = Inr w"
    and b: "getBit (componentManager w) 0 = Inr 0"
    and h: "World_hasComponent w 0 1 = Inr False"
    by blast
  have rng: "entity_in_range 1"
    by (simp add: entity_in_range_def NULL_ENTITY_def MAX_ENTITIES_def)
  have wd: "0 < MAX_COMPONENTS"
    by (simp add: MAX_COMPONENTS_def)
  from add_then_remove_component [OF rng b wd h, of "()"] r rng b wd h show ?thesis
    by blast
qed

text \<open>
  C8. \<open>registerSystem\<close> returns a system with an empty entity set, whatever entities the
  world already holds. An entity \<open>e\<close> stays out of that set through every later call
  sequence that makes no \<open>addComponent\<close> or \<open>removeComponent\<close> on \<open>e\<close>; such a call on
  \<open>e\<close>, made while the system is still the one registered under its name, puts \<open>e\<close> in
  the set exactly when the signature of \<open>e\<close> contains the system's.
\<close>

theorem registerSystem_not_retroactive:
  assumes reg: "registerSystem w T nm sg = (addr, w1)"
  shows "entities (systemObjects w1 ! addr) = {} \<and>
         signature (systemObjects w1 ! addr) = sg \<and>
         getSystem w1 nm = Some addr \<and>
         (\<forall>ops w2 e.
            world_run ops w1 = Inr w2 \<and> (\<forall>x \<in> set ops. \<not> refreshes e x) \<longrightarrow>
            e \<notin> entities (systemObjects w2 ! addr)) \<and>
         (\<forall>ops w2 x w3 e.
            world_run ops w1 = Inr w2 \<and> getSystem w2 nm = Some addr \<and>
            refreshes e x \<and> world_step x w2 = Inr w3 \<longrightarrow>
            (e \<in> entities (systemObjects w3 ! addr)) =
              ((signatures (entityManager w3) e AND sg) = sg))"
proof -
  from reg have addr: "addr = length (systemObjects w)"
    and w1: "w1 = w\<lparr>systemObjects :=
           systemObjects w @ [\<lparr>entities = {}, name = nm, signature = sg, enabled = True, hook = T\<rparr>],
        systems := AList.update nm (length (systemObjects w)) (systems w),
        systemOrder := systemOrder w @ [nm]\<rparr>"
    by (auto simp: registerSystem_result)
  have empty: "entities (systemObjects w1 ! addr) = {}"
    and sig: "signature (systemObjects w1 ! addr) = sg"
    and valid: "addr < length (systemObjects w1)"
    by (simp_all add: addr w1)
  have named: "getSystem w1 nm = Some addr"
    by (simp add: getSystem_def addr w1 update_conv')
  have later: "e \<notin> entities (systemObjects w2 ! addr)"
    if "world_run ops w1 = Inr w2 \<and> (\<forall>x \<in> set ops. \<not> refreshes e x)" for ops w2 e
    using that run_keeps_nonmember [of ops w1 w2 e addr] valid empty by simp
  have refresh: "(e \<in> entities (systemObjects w3 ! addr)) =
              ((signatures (entityManager w3) e AND sg) = sg)"
    if h: "world_run ops w1 = Inr w2 \<and> getSystem w2 nm = Some addr \<and>
            refreshes e x \<and> world_step x w2 = Inr w3" for ops w2 x w3 e
  proof -
    from h run_keeps_object [of ops w1 w2 addr] valid sig
    have a: "addr < length (systemObjects w2)" and s: "signature (systemObjects w2 ! addr) = sg"
      by simp_all
    from h have "(nm, addr) \<in> set (systems w2)"
      by (auto simp: getSystem_def dest: map_of_SomeD)
    then have "addr \<in> snd ` set (systems w2)"
      by force
    with h a s step_refreshes_member [of x w2 w3 e addr] show ?thesis
      by simp
  qed
  from empty sig named later refresh show ?thesis
    by blast
qed

theorem registerSystem_not_retroactive_witness:
  "\<exists>w w1 w2 w3.
     world_run [RegisterComponent 0, RegisterComponent 1, CreateEntity, AddComponent 0 1 ()]
       (World_new :: (nat, unit, unit) World) = Inr w \<and>
     (signatures (entityManager w) 1 AND 1) = 1 \<and>
     registerSystem w () ''S'' 1 = (0, w1) \<and>
     entities (systemObjects w1 ! 0) = {} \<and>
     world_run [CreateEntity, AddComponent 0 2 ()] w1 = Inr w2 \<and>
     (\<forall>x \<in> set [CreateEntity, AddComponent 0 2 () :: (nat, unit, unit) world_op]. \<not> refreshes 1 x) \<and>
     1 \<notin> entities (systemObjects w2 ! 0) \<and>
     getSystem w2 ''S'' = Some 0 \<and>
     refreshes 1 (AddComponent 1 1 () :: (nat, unit, unit) world_op) \<and>
     world_step (AddComponent 1 1 ()) w2 = Inr w3 \<and>
     1 \<in> entities (systemObjects w3 ! 0)"
proof -
  have "\<exists>w w1 w2 w3.
     world_run [RegisterComponent 0, RegisterComponent 1, CreateEntity, AddComponent 0 1 ()]
       (World_new :: (nat, unit, unit) World) = Inr w \<and>
     (signatures (entityManager w) 1 AND 1) = 1 \<and>
     registerSystem w () ''S'' 1 = (0, w1) \<and>
     world_run [CreateEntity, AddComponent 0 2 ()] w1 = Inr w2 \<and>
     getSystem w2 ''S'' = Some 0 \<and>
     world_step (AddComponent 1 1 ()) w2 = Inr w3 \<and>
     (signatures (entityManager w3) 1 AND 1) = 1"
    by (simp add: world_eval getSystem_def set_bit_1_and_1)
  then obtain w w1 w2 w3 where
    r: "world_run [RegisterComponent 0, RegisterComponent 1, CreateEntity, AddComponent 0 1 ()]
       (World_new :: (nat, unit, unit) World) = Inr w"
    and m: "(signatures (entityManager w) 1 AND 1) = 1"
    and reg: "registerSystem w () ''S'' 1 = (0, w1)"
    and r2: "world_run [CreateEntity, AddComponent 0 2 ()] w1 = Inr w2"
    and g: "getSystem w2 ''S'' = Some 0"
    and st: "world_step (AddComponent 1 1 ()) w2 = Inr w3"
    and m3: "(signatures (entityManager w3) 1 AND 1) = 1"
    by blast
  have nr: "\<forall>x \<in> set [CreateEntity, AddComponent 0 2 () :: (nat, unit, unit) world_op]. \<not> refreshes 1 x"
    by simp
  have rf: "refreshes 1 (AddComponent 1 1 () :: (nat, unit, unit) world_op)"
    by simp
  from registerSystem_not_retroactive [OF reg] have
    e: "entities (systemObjects w1 ! 0) = {}"
    and l: "\<forall>ops w2 e.
            world_run ops w1 = Inr w2 \<and> (\<forall>x \<in> set ops. \<not> refreshes e x) \<longrightarrow>
            e \<notin> entities (systemObjects w2 ! 0)"
    and f: "\<forall>ops w2 x w3 e.
            world_run ops w1 = Inr w2 \<and> getSystem w2 ''S'' = Some 0 \<and>
            refreshes e x \<and> world_step x w2 = Inr w3 \<longrightarrow>
            (e \<in> entities (systemObjects w3 ! 0)) =
              ((signatures (entityManager w3) e AND 1) = 1)"
    by blast+
  from l r2 nr have out: "1 \<notin> entities (systemObjects w2 ! 0)"
    by blast
  from f r2 g rf st have "(1 \<in> entities (systemObjects w3 ! 0)) =
              ((signatures (entityManager w3) 1 AND 1) = 1)"
    by blast
  with m3 have "1 \<in> entities (systemObjects w3 ! 0)"
    by simp
  with r m reg e r2 nr out g rf st show ?thesis
    by blast
qed

subsection \<open>A system's entity set since its registration\<close>

lemma step_keeps_name:
  assumes st: "world_step x w = Inr w'" and nr: "\<not> registers nm x"
  shows "map_of (systems w') nm = map_of (systems w) nm"
proof (cases x)
  case CreateEntity
  with st obtain e where "World_createEntity w = Inr (e, w')"
    by (auto split: sum.splits)
  then show ?thesis
    by (rule World_createEntity_effect) simp
next
  case (DestroyEntity e)
  with st have "World_destroyEntity w e = Inr w'" by simp
  then show ?thesis
    by (rule World_destroyEntity_effect) simp
next
  case (RegisterComponent ti)
  with st World_registerComponent_effect [of w ti w'] show ?thesis
    by auto
next
  case (AddComponent ti e c)
  with st have "World_addComponent w ti e c = Inr w'" by simp
  then show ?thesis
    by (rule World_addComponent_effect) simp
next
  case (RemoveComponent ti e)
  with st have "World_removeComponent w ti e = Inr w'" by simp
  then show ?thesis
    by (rule World_removeComponent_effect) simp
next
  case (RegisterSystem T nm' sg)
  with st nr show ?thesis
    by (auto simp: registerSystem_result update_conv')
qed

lemma run_keeps_name:
  "world_run ops w = Inr w' \<Longrightarrow> \<forall>x \<in> set ops. \<not> registers nm x \<Longrightarrow>
   map_of (systems w') nm = map_of (systems w) nm"
proof (induction ops arbitrary: w)
  case Nil
  then show ?case by simp
next
  case (Cons x xs)
  from Cons.prems(1) obtain w1 where st: "world_step x w = Inr w1" and run: "world_run xs w1 = Inr w'"
    by (auto split: sum.splits)
  from Cons.prems(2) have "\<not> registers nm x" "\<forall>x \<in> set xs. \<not> registers nm x"
    by simp_all
  with step_keeps_name [OF st, of nm] Cons.IH [OF run] show ?case
    by simp
qed











subsection \<open>Ids handed out by the World\<close>

text \<open>\<open>n\<close> consecutive \<open>World::createEntity\<close> calls, in closed form.\<close>

lemma world_creates_run:
  "n \<le> length (availableIds (entityManager w)) \<Longrightarrow>
   unat (livingCount (entityManager w)) + n \<le> 4096 \<Longrightarrow>
   world_run (replicate n CreateEntity) w =
     Inr (w\<lparr>entityManager :=
              (entityManager w)\<lparr>availableIds := drop n (availableIds (entityManager w)),
                                  livingCount := livingCount (entityManager w) + word_of_nat n\<rparr>\<rparr>)"
proof (induction n arbitrary: w)
  case 0
  then show ?case by simp
next
  case (Suc n)
  from Suc.prems obtain ident rest where q: "availableIds (entityManager w) = ident # rest"
    by (cases "availableIds (entityManager w)") auto
  from Suc.prems have lt: "livingCount (entityManager w) < MAX_ENTITIES"
    by (simp add: count_less_iff)
  define w1 where "w1 = w\<lparr>entityManager :=
      (entityManager w)\<lparr>availableIds := rest, livingCount := livingCount (entityManager w) + 1\<rparr>\<rparr>"
  from q lt have st: "world_step CreateEntity w = Inr w1"
    by (simp add: World_createEntity_def EntityManager_createEntity_def w1_def)
  have "n \<le> length (availableIds (entityManager w1))"
    "unat (livingCount (entityManager w1)) + n \<le> 4096"
    using Suc.prems q lt by (simp_all add: w1_def unat_count_Suc)
  from Suc.IH [OF this] st q show ?case
    by (simp add: w1_def)
qed

lemma component_added_creates:
  "foldl (component_added_step e) b (replicate n CreateEntity) = b"
  by (induction n) simp_all

text \<open>
  C10, as stated, fails for a system object that a second registration under the same
  name has displaced from the name map: \<open>destroyEntity\<close> goes through the name map, so
  it no longer purges that object. Below, entity 1 is listed by the first object named
  \<open>S\<close>, a second \<open>S\<close> is registered, entity 1 is destroyed, and after 4095 further
  \<open>createEntity\<close> calls the pool hands id 1 out again: no component has been added to
  it since, and the first object still lists it.
\<close>

theorem recycled_id_listed_by_displaced_system:
  "\<exists>w w'. world_run ([RegisterComponent 0, RegisterSystem () ''S'' 1, CreateEntity,
                       AddComponent 0 1 (), RegisterSystem () ''S'' 1, DestroyEntity 1] @
                      replicate 4095 CreateEntity)
             (World_new :: (nat, unit, unit) World) = Inr w \<and>
          \<not> component_added 1
              ([RegisterComponent 0, RegisterSystem () ''S'' 1, CreateEntity,
                AddComponent 0 1 (), RegisterSystem () ''S'' 1, DestroyEntity 1] @
               replicate 4095 CreateEntity :: (nat, unit, unit) world_op list) \<and>
          World_createEntity w = Inr (1, w') \<and>
          World_isAlive w' 1 = Inr False \<and>
          0 < length (systemObjects w') \<and> name (systemObjects w' ! 0) = ''S'' \<and>
          1 \<in> entities (systemObjects w' ! 0)"
proof -
  have "\<exists>w6. world_run [RegisterComponent 0, RegisterSystem () ''S'' 1, CreateEntity,
                       AddComponent 0 1 (), RegisterSystem () ''S'' 1, DestroyEntity 1]
             (World_new :: (nat, unit, unit) World) = Inr w6 \<and>
          availableIds (entityManager w6) = 2 # ids_from 3 @ [1] \<and>
          livingCount (entityManager w6) = 0 \<and>
          signatures (entityManager w6) 1 = 0 \<and>
          0 < length (systemObjects w6) \<and> name (systemObjects w6 ! 0) = ''S'' \<and>
          1 \<in> entities (systemObjects w6 ! 0)"
    by (simp add: world_eval)
  then obtain w6 :: "(nat, unit, unit) World" where
    r6: "world_run [RegisterComponent 0, RegisterSystem () ''S'' 1, CreateEntity,
                    AddComponent 0 1 (), RegisterSystem () ''S'' 1, DestroyEntity 1]
           World_new = Inr w6"
    and q6: "availableIds (entityManager w6) = 2 # ids_from 3 @ [1]"
    and c6: "livingCount (entityManager w6) = 0"
    and s6: "signatures (entityManager w6) 1 = 0"
    and o6: "0 < length (systemObjects w6)" "name (systemObjects w6 ! 0) = ''S''"
      "1 \<in> entities (systemObjects w6 ! 0)"
    by blast
  define w where "w = w6\<lparr>entityManager :=
      (entityManager w6)\<lparr>availableIds := drop 4095 (availableIds (entityManager w6)),
                           livingCount := livingCount (entityManager w6) + word_of_nat 4095\<rparr>\<rparr>"
  define w' where "w' = w\<lparr>entityManager :=
      (entityManager w)\<lparr>availableIds := [], livingCount := livingCount (entityManager w) + 1\<rparr>\<rparr>"
  have "world_run (replicate 4095 CreateEntity) w6 = Inr w"
    unfolding w_def by (rule world_creates_run) (simp_all add: q6 c6 length_ids_from)
  with r6 have r: "world_run ([RegisterComponent 0, RegisterSystem () ''S'' 1, CreateEntity,
                       AddComponent 0 1 (), RegisterSystem () ''S'' 1, DestroyEntity 1] @
                      replicate 4095 CreateEntity) World_new = Inr w"
    by (simp only: world_run_append sum.case)
  have u: "\<not> component_added 1
              ([RegisterComponent 0, RegisterSystem () ''S'' 1, CreateEntity,
                AddComponent 0 1 (), RegisterSystem () ''S'' 1, DestroyEntity 1] @
               replicate 4095 CreateEntity :: (nat, unit, unit) world_op list)"
    by (simp add: component_added_def component_added_creates)
  have q: "availableIds (entityManager w) = [1]"
    by (simp add: w_def q6 length_ids_from)
  have lt: "livingCount (entityManager w) < MAX_ENTITIES"
    by (simp add: w_def c6 MAX_ENTITIES_def)
  with q have c: "World_createEntity w = Inr (1, w')"
    by (simp add: World_createEntity_def EntityManager_createEntity_def w'_def)
  have a: "World_isAlive w' 1 = Inr False"
    by (simp add: isAlive_alt w'_def w_def s6)
  have o: "0 < length (systemObjects w')" "name (systemObjects w' ! 0) = ''S''"
    "1 \<in> entities (systemObjects w' ! 0)"
    using o6 by (simp_all add: w'_def w_def)
  from r u c a o show ?thesis
    by blast
qed

text \<open>
  C10, amended. Along any call sequence from a new world, an id returned by
  \<open>createEntity\<close> to which no component has been added (since it was last destroyed, if
  ever) is not alive and is in the set of no system that the World's name map holds,
  and the call has raised \<open>getEntityCount\<close> by one. So the count can exceed the number
  of alive ids: after one \<open>createEntity\<close> on a new world the count is 1 and no id is
  alive.
\<close>

theorem created_entity_not_alive_but_counted:
  assumes run: "world_run ops World_new = Inr w"
    and untouched: "\<not> component_added e ops"
    and create: "World_createEntity w = Inr (e, w')"
  shows "World_isAlive w' e = Inr False \<and>
         (\<forall>addr \<in> snd ` set (systems w'). e \<notin> entities (systemObjects w' ! addr)) \<and>
         getEntityCount w' = getEntityCount w + 1 \<and>
         (\<exists>w1. World_createEntity (World_new :: ('k, 'v, 'h) World) = Inr (1, w1) \<and>
               card {e'. World_isAlive w1 e' = Inr True} < unat (getEntityCount w1))"
proof -
  from run_carries_nothing [OF run World_new_invariants(1,2), of False e] untouched
  have cn: "carries_nothing w e"
    by (simp add: component_added_def World_new_invariants(3))
  from create obtain rest where
    w': "w' = w\<lparr>entityManager :=
               (entityManager w)\<lparr>availableIds := rest,
                                   livingCount := livingCount (entityManager w) + 1\<rparr>\<rparr>"
    by (rule World_createEntity_effect)
  from cn have "World_isAlive w' e = Inr False"
    by (simp add: isAlive_alt w' carries_nothing_def)
  moreover from cn have "\<forall>addr \<in> snd ` set (systems w'). e \<notin> entities (systemObjects w' ! addr)"
    by (simp add: w' carries_nothing_def)
  moreover have "getEntityCount w' = getEntityCount w + 1"
    by (simp add: w' getEntityCount_def getLivingCount_def)
  moreover have "\<exists>w1. World_createEntity (World_new :: ('k, 'v, 'h) World) = Inr (1, w1) \<and>
               card {e'. World_isAlive w1 e' = Inr True} < unat (getEntityCount w1)"
    by (simp add: World_createEntity_def EntityManager_createEntity_def World_new_def
        EntityManager_new_eq ids_from_1_unfold MAX_ENTITIES_def isAlive_alt
        getEntityCount_def getLivingCount_def)
  ultimately show ?thesis by blast
qed

theorem created_entity_not_alive_but_counted_witness:
  "\<exists>w w'. world_run ([RegisterComponent 0, RegisterSystem () ''S'' 1, CreateEntity,
                       AddComponent 0 1 (), DestroyEntity 1] @ replicate 4095 CreateEntity)
             (World_new :: (nat, unit, unit) World) = Inr w \<and>
          \<not> component_added 1
              ([RegisterComponent 0, RegisterSystem () ''S'' 1, CreateEntity,
                AddComponent 0 1 (), DestroyEntity 1] @ replicate 4095 CreateEntity
                 :: (nat, unit, unit) world_op list) \<and>
          World_createEntity w = Inr (1, w') \<and>
          World_isAlive w' 1 = Inr False \<and>
          0 \<in> snd ` set (systems w') \<and> name (systemObjects w' ! 0) = ''S'' \<and>
          1 \<notin> entities (systemObjects w' ! 0) \<and>
          getEntityCount w = 4095 \<and> getEntityCount w' = 4096"
proof -
  have "\<exists>w5. world_run [RegisterComponent 0, RegisterSystem () ''S'' 1, CreateEntity,
                       AddComponent 0 1 (), DestroyEntity 1]
             (World_new :: (nat, unit, unit) World) = Inr w5 \<and>
          availableIds (entityManager w5) = 2 # ids_from 3 @ [1] \<and>
          livingCount (entityManager w5) = 0 \<and>
          0 \<in> snd ` set (systems w5) \<and> name (systemObjects w5 ! 0) = ''S''"
    by (simp add: world_eval)
  then obtain w5 :: "(nat, unit, unit) World" where
    r5: "world_run [RegisterComponent 0, RegisterSystem () ''S'' 1, CreateEntity,
                    AddComponent 0 1 (), DestroyEntity 1] World_new = Inr w5"
    and q5: "availableIds (entityManager w5) = 2 # ids_from 3 @ [1]"
    and c5: "livingCount (entityManager w5) = 0"
    and o5: "0 \<in> snd ` set (systems w5)" "name (systemObjects w5 ! 0) = ''S''"
    by blast
  define w where "w = w5\<lparr>entityManager :=
      (entityManager w5)\<lparr>availableIds := drop 4095 (availableIds (entityManager w5)),
                           livingCount := livingCount (entityManager w5) + word_of_nat 4095\<rparr>\<rparr>"
  define w' where "w' = w\<lparr>entityManager :=
      (entityManager w)\<lparr>availableIds := [], livingCount := livingCount (entityManager w) + 1\<rparr>\<rparr>"
  have "world_run (replicate 4095 CreateEntity) w5 = Inr w"
    unfolding w_def by (rule world_creates_run) (simp_all add: q5 c5 length_ids_from)
  with r5 have r: "world_run ([RegisterComponent 0, RegisterSystem () ''S'' 1, CreateEntity,
                       AddComponent 0 1 (), DestroyEntity 1] @ replicate 4095 CreateEntity)
                     World_new = Inr w"
    by (simp only: world_run_append sum.case)
  have u: "\<not> component_added 1
              ([RegisterComponent 0, RegisterSystem () ''S'' 1, CreateEntity,
                AddComponent 0 1 (), DestroyEntity 1] @ replicate 4095 CreateEntity
                 :: (nat, unit, unit) world_op list)"
    by (simp add: component_added_def component_added_creates)
  have q: "availableIds (entityManager w) = [1]"
    by (simp add: w_def q5 length_ids_from)
  have lt: "livingCount (entityManager w) < MAX_ENTITIES"
    by (simp add: w_def c5 MAX_ENTITIES_def)
  with q have c: "World_createEntity w = Inr (1, w')"
    by (simp add: World_createEntity_def EntityManager_createEntity_def w'_def)
  have n: "getEntityCount w = 4095"
    by (simp add: getEntityCount_def getLivingCount_def w_def c5)
  have o: "0 \<in> snd ` set (systems w')" "name (systemObjects w' ! 0) = ''S''"
    using o5 by (simp_all add: w'_def w_def)
  from created_entity_not_alive_but_counted [OF r u c]
  have "World_isAlive w' 1 = Inr False"
    and "\<forall>addr \<in> snd ` set (systems w'). 1 \<notin> entities (systemObjects w' ! addr)"
    and "getEntityCount w' = getEntityCount w + 1"
    by blast+
  with n o have "World_isAlive w' 1 = Inr False" "1 \<notin> entities (systemObjects w' ! 0)"
    "getEntityCount w' = 4096"
    by auto
  with r u c n o show ?thesis
    by blast
qed

subsection \<open>The registry of systems along a call sequence\<close>

lemma refresh_system_class [simp]:
  "name (refresh_system e sg s) = name s" "hook (refresh_system e sg s) = hook s"
  by (simp_all add: refresh_system_def)

text \<open>No World call changes the name, the enabled flag or the class of an object.\<close>

lemma step_keeps_class:
  assumes st: "world_step x w = Inr w'" and a: "addr < length (systemObjects w)"
  shows "addr < length (systemObjects w') \<and>
         name (systemObjects w' ! addr) = name (systemObjects w ! addr) \<and>
         enabled (systemObjects w' ! addr) = enabled (systemObjects w ! addr) \<and>
         hook (systemObjects w' ! addr) = hook (systemObjects w ! addr)"
proof (cases x)
  case CreateEntity
  with st obtain e where "World_createEntity w = Inr (e, w')"
    by (auto split: sum.splits)
  then show ?thesis
    by (rule World_createEntity_effect) (use a in simp)
next
  case (DestroyEntity e)
  with st have "World_destroyEntity w e = Inr w'" by simp
  then show ?thesis
    by (rule World_destroyEntity_effect)
      (use a in \<open>simp add: destroy_objects_length destroy_objects_nth\<close>)
next
  case (RegisterComponent ti)
  with st a World_registerComponent_effect [of w ti w'] show ?thesis
    by auto
next
  case (AddComponent ti e c)
  with st have "World_addComponent w ti e c = Inr w'" by simp
  then show ?thesis
    by (rule World_addComponent_effect) (use a in \<open>simp add: updateSystemEntitySets_nth\<close>)
next
  case (RemoveComponent ti e)
  with st have "World_removeComponent w ti e = Inr w'" by simp
  then show ?thesis
    by (rule World_removeComponent_effect) (use a in \<open>simp add: updateSystemEntitySets_nth\<close>)
next
  case (RegisterSystem T nm sg)
  with st a show ?thesis
    by (auto simp: registerSystem_def Let_def nth_append)
qed

lemma run_keeps_class:
  "world_run ops w = Inr w' \<Longrightarrow> addr < length (systemObjects w) \<Longrightarrow>
   addr < length (systemObjects w') \<and>
   name (systemObjects w' ! addr) = name (systemObjects w ! addr) \<and>
   enabled (systemObjects w' ! addr) = enabled (systemObjects w ! addr) \<and>
   hook (systemObjects w' ! addr) = hook (systemObjects w ! addr)"
proof (induction ops arbitrary: w)
  case Nil
  then show ?case by simp
next
  case (Cons x xs)
  from Cons.prems(1) obtain w1 where st: "world_step x w = Inr w1" and run: "world_run xs w1 = Inr w'"
    by (auto split: sum.splits)
  from step_keeps_class [OF st Cons.prems(2)] Cons.IH [OF run] show ?case
    by simp
qed

text \<open>Only \<open>registerSystem\<close> allocates an object or touches the name map and the update list.\<close>

lemma step_registry_frame:
  assumes st: "world_step x w = Inr w'" and nr: "\<forall>T nm sg. x \<noteq> RegisterSystem T nm sg"
  shows "length (systemObjects w') = length (systemObjects w) \<and> systems w' = systems w \<and>
         systemOrder w' = systemOrder w"
proof (cases x)
  case CreateEntity
  with st obtain e where "World_createEntity w = Inr (e, w')"
    by (auto split: sum.splits)
  then show ?thesis
    by (rule World_createEntity_effect) simp
next
  case (DestroyEntity e)
  with st have "World_destroyEntity w e = Inr w'" by simp
  then show ?thesis
    by (rule World_destroyEntity_effect) (simp add: destroy_objects_length)
next
  case (RegisterComponent ti)
  with st World_registerComponent_effect [of w ti w'] show ?thesis
    by auto
next
  case (AddComponent ti e c)
  with st have "World_addComponent w ti e c = Inr w'" by simp
  then show ?thesis
    by (rule World_addComponent_effect) simp
next
  case (RemoveComponent ti e)
  with st have "World_removeComponent w ti e = Inr w'" by simp
  then show ?thesis
    by (rule World_removeComponent_effect) simp
next
  case (RegisterSystem T nm sg)
  with nr show ?thesis by simp
qed

lemma step_order_count:
  assumes st: "world_step x w = Inr w'" and nr: "\<not> registers nm x"
  shows "count_list (systemOrder w') nm = count_list (systemOrder w) nm"
proof (cases "\<exists>T k sg. x = RegisterSystem T k sg")
  case True
  then obtain T k sg where x: "x = RegisterSystem T k sg" by blast
  with nr have "k \<noteq> nm" by simp
  with st x show ?thesis
    by (auto simp: registerSystem_result)
next
  case False
  with step_registry_frame [OF st] show ?thesis by simp
qed

lemma run_order_count:
  "world_run ops w = Inr w' \<Longrightarrow> \<forall>x \<in> set ops. \<not> registers nm x \<Longrightarrow>
   count_list (systemOrder w') nm = count_list (systemOrder w) nm"
proof (induction ops arbitrary: w)
  case Nil
  then show ?case by simp
next
  case (Cons x xs)
  from Cons.prems(1) obtain w1 where st: "world_step x w = Inr w1" and run: "world_run xs w1 = Inr w'"
    by (auto split: sum.splits)
  from Cons.prems(2) have "\<not> registers nm x" "\<forall>x \<in> set xs. \<not> registers nm x"
    by simp_all
  with step_order_count [OF st, of nm] Cons.IH [OF run] show ?case
    by simp
qed

lemma registry_ok_new: "registry_ok World_new"
  by (simp add: registry_ok_def World_new_def)

lemma registry_ok_registerSystem:
  assumes "registry_ok w"
  shows "registry_ok (snd (registerSystem w T nm sg))"
  using assms
  by (auto simp: registry_ok_def registerSystem_result update_conv' nth_append less_Suc_eq)

lemma step_registry_ok:
  assumes st: "world_step x w = Inr w'" and ok: "registry_ok w"
  shows "registry_ok w'"
proof (cases "\<exists>T k sg. x = RegisterSystem T k sg")
  case True
  then obtain T k sg where x: "x = RegisterSystem T k sg" by blast
  with st have "w' = snd (registerSystem w T k sg)" by simp
  with ok show ?thesis
    by (simp add: registry_ok_registerSystem)
next
  case False
  with step_registry_frame [OF st] have
    frame: "length (systemObjects w') = length (systemObjects w)" "systems w' = systems w"
    by simp_all
  have obj: "name (systemObjects w' ! a) = name (systemObjects w ! a) \<and>
             enabled (systemObjects w' ! a) = enabled (systemObjects w ! a)"
    if "a < length (systemObjects w)" for a
    using step_keeps_class [OF st that] by simp
  from ok frame obj show ?thesis
    by (simp add: registry_ok_def)
qed

lemma run_registry_ok:
  "world_run ops w = Inr w' \<Longrightarrow> registry_ok w \<Longrightarrow> registry_ok w'"
proof (induction ops arbitrary: w)
  case Nil
  then show ?case by simp
next
  case (Cons x xs)
  from Cons.prems(1) obtain w1 where st: "world_step x w = Inr w1" and run: "world_run xs w1 = Inr w'"
    by (auto split: sum.splits)
  from run step_registry_ok [OF st Cons.prems(2)] show ?case
    by (rule Cons.IH)
qed

subsection \<open>The update loop\<close>

text \<open>
  With hooks that leave the name map, the enabled flags and the classes alone, the loop
  calls, in the order of the update list, the hook of the object registered under each
  name whose object is enabled, and returns the world these calls leave.
\<close>

lemma updateSystems_loop_called:
  assumes kd: "keeps_dispatch run"
    and ok: "\<forall>nm \<in> set names.
               \<exists>addr. map_of (systems w) nm = Some addr \<and> addr < length (systemObjects w)"
  shows "updateSystems_loop run dt names w called =
           Inr (call_hooks run dt w
                  (map (\<lambda>nm. the (map_of (systems w) nm))
                     (filter (\<lambda>nm. enabled (systemObjects w ! the (map_of (systems w) nm)))
                        names)),
                called @
                  map (\<lambda>nm. the (map_of (systems w) nm))
                    (filter (\<lambda>nm. enabled (systemObjects w ! the (map_of (systems w) nm)))
                       names))"
  using ok
proof (induction names arbitrary: w called)
  case Nil
  then show ?case by simp
next
  case (Cons nm rest)
  from Cons.prems obtain addr where
    addr: "map_of (systems w) nm = Some addr" "addr < length (systemObjects w)"
    by auto
  show ?case
  proof (cases "enabled (systemObjects w ! addr)")
    case False
    from Cons.prems have "\<forall>nm \<in> set rest.
        \<exists>addr. map_of (systems w) nm = Some addr \<and> addr < length (systemObjects w)"
      by simp
    from Cons.IH [OF this, of called] addr False show ?thesis
      by simp
  next
    case True
    let ?w1 = "run (hook (systemObjects w ! addr)) addr dt w"
    from kd have same: "systems ?w1 = systems w"
      "length (systemObjects ?w1) = length (systemObjects w)"
      "\<forall>a < length (systemObjects w). enabled (systemObjects ?w1 ! a) = enabled (systemObjects w ! a)"
      by (simp_all add: keeps_dispatch_def)
    with Cons.prems have ok1: "\<forall>nm \<in> set rest.
        \<exists>addr. map_of (systems ?w1) nm = Some addr \<and> addr < length (systemObjects ?w1)"
      by simp
    have flt: "filter (\<lambda>nm. enabled (systemObjects ?w1 ! the (map_of (systems ?w1) nm))) rest =
               filter (\<lambda>nm. enabled (systemObjects w ! the (map_of (systems w) nm))) rest"
    proof (rule filter_cong [OF refl])
      fix n assume "n \<in> set rest"
      with Cons.prems obtain a where "map_of (systems w) n = Some a" "a < length (systemObjects w)"
        by auto
      with same show "enabled (systemObjects ?w1 ! the (map_of (systems ?w1) n)) =
                      enabled (systemObjects w ! the (map_of (systems w) n))"
        by simp
    qed
    from Cons.IH [OF ok1, of "called @ [addr]"] addr True same(1) flt show ?thesis
      by simp
  qed
qed

lemma count_list_map_key:
  "\<forall>k \<in> set xs. (f k = a) = (k = nm) \<Longrightarrow> count_list (map f xs) a = count_list xs nm"
  by (induction xs) auto

text \<open>
  C9, as stated, fails when the second system's \<open>update\<close> clears its own \<open>enabled\<close>
  flag: the loop tests the flag at every entry of the update list, so the second entry
  for the name is skipped, and one \<open>updateSystems\<close> call invokes the second system's
  hook once, not twice.
\<close>

theorem self_disabling_hook_runs_once:
  "\<exists>w1 w2 w3 called.
      registerSystem (World_new :: (nat, unit, unit) World) () ''S'' 0 = (0, w1) \<and>
      registerSystem w1 () ''S'' 0 = (1, w2) \<and>
      getSystem w2 ''S'' = Some 1 \<and> systemOrder w2 = [''S'', ''S''] \<and>
      updateSystems
        (\<lambda>T addr dt w.
           w\<lparr>systemObjects :=
               (systemObjects w)[addr := (systemObjects w ! addr)\<lparr>enabled := False\<rparr>]\<rparr>)
        () w2 = Inr (w3, called) \<and>
      called = [1] \<and> count_list called 1 \<noteq> 2"
  by (simp add: registerSystem_result World_new_def updateSystems_def getSystem_def)

text \<open>
  C9, amended. Take a world reached by a call sequence from a new world, and update
  hooks that leave the name map, the enabled flags and the classes of the objects
  alone. Let \<open>registerSystem\<close> be called twice with the same name, with any calls other
  than a registration under that name between the two and after them. Then the two
  calls return distinct objects, the name map holds the second one for the name, and
  each call has appended the name to the update list. A following \<open>updateSystems\<close>
  returns, having called the hooks of the objects it lists one after the other; it
  calls the second object's hook once for every entry of the name in the update list -
  twice when the name was not registered before - and the first object's hook never.
  When the update list is just the name twice, the world returned is the one the
  second system's hook leaves when called twice.
\<close>

theorem duplicate_name_updates_second_twice:
  assumes kd: "keeps_dispatch run"
    and reach: "world_run ops World_new = Inr w"
    and first: "registerSystem w T1 nm sg1 = (a1, w1)"
    and between: "world_run ops1 w1 = Inr w1'" "\<forall>x \<in> set ops1. \<not> registers nm x"
    and second: "registerSystem w1' T2 nm sg2 = (a2, w2)"
    and after: "world_run ops2 w2 = Inr w2'" "\<forall>x \<in> set ops2. \<not> registers nm x"
  shows "a1 \<noteq> a2 \<and> getSystem w1 nm = Some a1 \<and> getSystem w2 nm = Some a2 \<and>
         getSystem w2' nm = Some a2 \<and>
         systemOrder w1 = systemOrder w @ [nm] \<and> systemOrder w2 = systemOrder w1' @ [nm] \<and>
         count_list (systemOrder w2') nm = count_list (systemOrder w) nm + 2 \<and>
         a1 < length (systemObjects w2') \<and> a2 < length (systemObjects w2') \<and>
         hook (systemObjects w2' ! a1) = T1 \<and> hook (systemObjects w2' ! a2) = T2 \<and>
         (\<exists>w3 called.
            updateSystems run dt w2' = Inr (w3, called) \<and>
            w3 = call_hooks run dt w2' called \<and>
            length called = length (systemOrder w2') \<and>
            count_list called a2 = count_list (systemOrder w) nm + 2 \<and>
            a1 \<notin> set called \<and>
            (nm \<notin> set (systemOrder w) \<longrightarrow> count_list called a2 = 2) \<and>
            (systemOrder w2' = [nm, nm] \<longrightarrow>
               called = [a2, a2] \<and> w3 = run T2 a2 dt (run T2 a2 dt w2')))"
proof -
  from run_dispatch_ok [OF reach dispatch_ok_new] have d0: "dispatch_ok w" .
  from run_registry_ok [OF reach registry_ok_new] have g0: "registry_ok w" .
  from first have a1: "a1 = length (systemObjects w)"
    and w1: "w1 = snd (registerSystem w T1 nm sg1)"
    by (auto simp: registerSystem_result)
  from d0 have d1: "dispatch_ok w1"
    unfolding w1 by (rule dispatch_ok_registerSystem)
  from g0 have g1: "registry_ok w1"
    unfolding w1 by (rule registry_ok_registerSystem)
  have o1: "a1 < length (systemObjects w1)" "name (systemObjects w1 ! a1) = nm"
    "hook (systemObjects w1 ! a1) = T1"
    by (simp_all add: w1 a1 registerSystem_result)
  have s1: "systemOrder w1 = systemOrder w @ [nm]" "map_of (systems w1) nm = Some a1"
    by (simp_all add: w1 a1 registerSystem_result update_conv')
  from run_dispatch_ok [OF between(1) d1] have d1': "dispatch_ok w1'" .
  from run_registry_ok [OF between(1) g1] have g1': "registry_ok w1'" .
  from run_keeps_class [OF between(1) o1(1)] o1 have
    o1': "a1 < length (systemObjects w1')" "name (systemObjects w1' ! a1) = nm"
    "hook (systemObjects w1' ! a1) = T1"
    by simp_all
  from run_order_count [OF between] s1 have
    c1': "count_list (systemOrder w1') nm = count_list (systemOrder w) nm + 1"
    by simp
  from second have a2: "a2 = length (systemObjects w1')"
    and w2: "w2 = snd (registerSystem w1' T2 nm sg2)"
    by (auto simp: registerSystem_result)
  from d1' have d2: "dispatch_ok w2"
    unfolding w2 by (rule dispatch_ok_registerSystem)
  from g1' have g2: "registry_ok w2"
    unfolding w2 by (rule registry_ok_registerSystem)
  from o1'(1) a2 have ne: "a1 \<noteq> a2" by simp
  have o2: "a2 < length (systemObjects w2)" "name (systemObjects w2 ! a2) = nm"
    "hook (systemObjects w2 ! a2) = T2"
    by (simp_all add: w2 a2 registerSystem_result)
  from o1' have p2: "a1 < length (systemObjects w2)" "name (systemObjects w2 ! a1) = nm"
    "hook (systemObjects w2 ! a1) = T1"
    by (simp_all add: w2 registerSystem_result nth_append)
  have s2: "systemOrder w2 = systemOrder w1' @ [nm]" "map_of (systems w2) nm = Some a2"
    by (simp_all add: w2 a2 registerSystem_result update_conv')
  from run_dispatch_ok [OF after(1) d2] have d2': "dispatch_ok w2'" .
  from run_registry_ok [OF after(1) g2] have g2': "registry_ok w2'" .
  from run_keeps_class [OF after(1) o2(1)] o2 have
    o2': "a2 < length (systemObjects w2')" "name (systemObjects w2' ! a2) = nm"
    "hook (systemObjects w2' ! a2) = T2"
    by simp_all
  from run_keeps_class [OF after(1) p2(1)] p2 have
    p2': "a1 < length (systemObjects w2')" "name (systemObjects w2' ! a1) = nm"
    "hook (systemObjects w2' ! a1) = T1"
    by simp_all
  from run_keeps_name [OF after] s2 have m2': "map_of (systems w2') nm = Some a2"
    by simp
  from run_order_count [OF after] s2 c1' have
    c2': "count_list (systemOrder w2') nm = count_list (systemOrder w) nm + 2"
    by simp
  let ?f = "\<lambda>k. the (map_of (systems w2') k)"
  let ?en = "\<lambda>k. enabled (systemObjects w2' ! ?f k)"
  define L where "L = map ?f (filter ?en (systemOrder w2'))"
  from d2' have ok: "\<forall>k \<in> set (systemOrder w2').
      \<exists>addr. map_of (systems w2') k = Some addr \<and> addr < length (systemObjects w2')"
    by (simp add: dispatch_ok_def)
  have upd: "updateSystems run dt w2' = Inr (call_hooks run dt w2' L, L)"
    using updateSystems_loop_called [OF kd ok, of dt "[]"] by (simp add: updateSystems_def L_def)
  have named: "name (systemObjects w2' ! ?f k) = k \<and> ?en k" if "k \<in> set (systemOrder w2')" for k
  proof -
    from ok that obtain addr where "map_of (systems w2') k = Some addr" by blast
    with g2' show ?thesis by (auto simp: registry_ok_def)
  qed
  then have "filter ?en (systemOrder w2') = systemOrder w2'"
    by (simp add: filter_id_conv)
  then have L: "L = map ?f (systemOrder w2')" by (simp add: L_def)
  have key: "\<forall>k \<in> set (systemOrder w2'). (?f k = a2) = (k = nm)"
  proof
    fix k assume k: "k \<in> set (systemOrder w2')"
    show "(?f k = a2) = (k = nm)"
    proof
      assume "?f k = a2"
      with named [OF k] o2'(2) show "k = nm" by simp
    next
      assume "k = nm"
      with m2' show "?f k = a2" by simp
    qed
  qed
  have cnt: "count_list L a2 = count_list (systemOrder w) nm + 2"
    using count_list_map_key [OF key] by (simp only: L c2')
  have never: "a1 \<notin> set L"
  proof
    assume "a1 \<in> set L"
    with L obtain k where k: "k \<in> set (systemOrder w2')" "?f k = a1" by auto
    with named [OF k(1)] p2'(2) have "k = nm" by simp
    with k(2) m2' ne show False by simp
  qed
  have fresh: "nm \<notin> set (systemOrder w) \<longrightarrow> count_list L a2 = 2"
    using cnt by simp
  have twice: "systemOrder w2' = [nm, nm] \<longrightarrow>
      L = [a2, a2] \<and> call_hooks run dt w2' L = run T2 a2 dt (run T2 a2 dt w2')"
  proof
    assume order: "systemOrder w2' = [nm, nm]"
    from L order m2' have l: "L = [a2, a2]" by simp
    from kd o2'(1) have "hook (systemObjects (run T2 a2 dt w2') ! a2) = hook (systemObjects w2' ! a2)"
      by (simp add: keeps_dispatch_def)
    with o2'(3) have "call_hooks run dt w2' [a2, a2] = run T2 a2 dt (run T2 a2 dt w2')"
      by simp
    with l show "L = [a2, a2] \<and> call_hooks run dt w2' L = run T2 a2 dt (run T2 a2 dt w2')"
      by simp
  qed
  have len: "length L = length (systemOrder w2')"
    by (simp only: L length_map)
  have "updateSystems run dt w2' = Inr (call_hooks run dt w2' L, L) \<and>
        call_hooks run dt w2' L = call_hooks run dt w2' L \<and>
        length L = length (systemOrder w2') \<and>
        count_list L a2 = count_list (systemOrder w) nm + 2 \<and>
        a1 \<notin> set L \<and>
        (nm \<notin> set (systemOrder w) \<longrightarrow> count_list L a2 = 2) \<and>
        (systemOrder w2' = [nm, nm] \<longrightarrow>
           L = [a2, a2] \<and> call_hooks run dt w2' L = run T2 a2 dt (run T2 a2 dt w2'))"
    using upd cnt never fresh twice len by (intro conjI refl)
  then have
    "\<exists>w3 called.
        updateSystems run dt w2' = Inr (w3, called) \<and>
        w3 = call_hooks run dt w2' called \<and>
        length called = length (systemOrder w2') \<and>
        count_list called a2 = count_list (systemOrder w) nm + 2 \<and>
        a1 \<notin> set called \<and>
        (nm \<notin> set (systemOrder w) \<longrightarrow> count_list called a2 = 2) \<and>
        (systemOrder w2' = [nm, nm] \<longrightarrow>
           called = [a2, a2] \<and> w3 = run T2 a2 dt (run T2 a2 dt w2'))"
    by (rule exI [of _ "call_hooks run dt w2' L", OF exI [of _ L]])
  with ne s1 s2 m2' c2' o2' p2' show ?thesis
    by (simp add: getSystem_def)
qed

theorem duplicate_name_updates_second_twice_witness:
  "keeps_dispatch
     (\<lambda>T addr (dt :: unit) w. case World_destroyEntity (w :: (nat, unit, Entity) World) T of
                       Inl err \<Rightarrow> w | Inr w' \<Rightarrow> w') \<and>
   (\<exists>w w1 w1' w2 w2' x1 x2 w3 called.
      world_run [RegisterComponent 0, CreateEntity, AddComponent 0 1 (), CreateEntity,
                 AddComponent 0 2 (), CreateEntity, AddComponent 0 3 ()]
        (World_new :: (nat, unit, Entity) World) = Inr w \<and>
      registerSystem w 1 ''S'' 1 = (0, w1) \<and>
      world_run [RegisterSystem 2 ''T'' 1] w1 = Inr w1' \<and>
      (\<forall>x \<in> set [RegisterSystem 2 ''T'' 1 :: (nat, unit, Entity) world_op]. \<not> registers ''S'' x) \<and>
      registerSystem w1' 3 ''S'' 1 = (2, w2) \<and>
      world_run [RegisterComponent 1] w2 = Inr w2' \<and>
      (\<forall>x \<in> set [RegisterComponent 1 :: (nat, unit, Entity) world_op]. \<not> registers ''S'' x) \<and>
      ''S'' \<notin> set (systemOrder w) \<and>
      getSystem w2' ''S'' = Some 2 \<and> systemOrder w2' = [''S'', ''T'', ''S''] \<and>
      hook (systemObjects w2' ! 0) = 1 \<and> hook (systemObjects w2' ! 2) = 3 \<and>
      updateSystems
        (\<lambda>T addr dt w. case World_destroyEntity w T of Inl err \<Rightarrow> w | Inr w' \<Rightarrow> w')
        () w2' = Inr (w3, called) \<and>
      called = [2, 1, 2] \<and> count_list called 2 = 2 \<and> 0 \<notin> set called \<and>
      w3 = call_hooks
             (\<lambda>T addr dt w. case World_destroyEntity w T of Inl err \<Rightarrow> w | Inr w' \<Rightarrow> w')
             () w2' called \<and>
      World_destroyEntity w2' 3 = Inr x1 \<and> World_destroyEntity x1 2 = Inr x2 \<and>
      World_destroyEntity x2 3 = Inr w3 \<and>
      World_isAlive w3 1 = Inr True \<and> World_isAlive w3 2 = Inr False \<and>
      World_isAlive w3 3 = Inr False \<and> getEntityCount w2' = 3 \<and> getEntityCount w3 = 0) \<and>
   (\<exists>w w1 w2 x1 w3 called.
      world_run [RegisterComponent 0, CreateEntity, AddComponent 0 1 (), CreateEntity,
                 AddComponent 0 2 ()]
        (World_new :: (nat, unit, Entity) World) = Inr w \<and>
      registerSystem w 1 ''S'' 1 = (0, w1) \<and>
      world_run [] w1 = Inr w1 \<and>
      registerSystem w1 2 ''S'' 1 = (1, w2) \<and>
      world_run [] w2 = Inr w2 \<and>
      systemOrder w2 = [''S'', ''S''] \<and>
      updateSystems
        (\<lambda>T addr dt w. case World_destroyEntity w T of Inl err \<Rightarrow> w | Inr w' \<Rightarrow> w')
        () w2 = Inr (w3, called) \<and>
      called = [1, 1] \<and>
      World_destroyEntity w2 2 = Inr x1 \<and> World_destroyEntity x1 2 = Inr w3 \<and>
      World_isAlive w3 1 = Inr True \<and> World_isAlive w3 2 = Inr False \<and>
      getEntityCount w2 = 2 \<and> getEntityCount w3 = 0)"
proof -
  let ?run = "\<lambda>(T :: Entity) (addr :: nat) (dt :: unit) (w :: (nat, unit, Entity) World).
                case World_destroyEntity w T of Inl err \<Rightarrow> w | Inr w' \<Rightarrow> w'"
  have kd: "keeps_dispatch ?run"
    unfolding keeps_dispatch_def
  proof (intro allI)
    fix T :: Entity and addr :: nat and dt :: unit and w :: "(nat, unit, Entity) World"
    show "systems (?run T addr dt w) = systems w \<and>
          length (systemObjects (?run T addr dt w)) = length (systemObjects w) \<and>
          (\<forall>a < length (systemObjects w).
             enabled (systemObjects (?run T addr dt w) ! a) = enabled (systemObjects w ! a) \<and>
             hook (systemObjects (?run T addr dt w) ! a) = hook (systemObjects w ! a))"
    proof (cases "World_destroyEntity w T")
      case (Inl err)
      then show ?thesis by simp
    next
      case (Inr w')
      then have frame: "systems w' = systems w"
        "length (systemObjects w') = length (systemObjects w)"
        "\<forall>a < length (systemObjects w).
           enabled (systemObjects w' ! a) = enabled (systemObjects w ! a) \<and>
           hook (systemObjects w' ! a) = hook (systemObjects w ! a)"
        by (rule World_destroyEntity_effect;
            simp add: destroy_objects_length destroy_objects_nth)+
      with Inr show ?thesis by simp
    qed
  qed
  have "\<exists>w w1 w1' w2 w2' x1 x2 x3.
      world_run [RegisterComponent 0, CreateEntity, AddComponent 0 1 (), CreateEntity,
                 AddComponent 0 2 (), CreateEntity, AddComponent 0 3 ()]
        (World_new :: (nat, unit, Entity) World) = Inr w \<and>
      registerSystem w 1 ''S'' 1 = (0, w1) \<and>
      world_run [RegisterSystem 2 ''T'' 1] w1 = Inr w1' \<and>
      registerSystem w1' 3 ''S'' 1 = (2, w2) \<and>
      world_run [RegisterComponent 1] w2 = Inr w2' \<and>
      ''S'' \<notin> set (systemOrder w) \<and>
      systemOrder w2' = [''S'', ''T'', ''S''] \<and> getEntityCount w2' = 3 \<and>
      World_destroyEntity w2' 3 = Inr x1 \<and>
      World_destroyEntity x1 2 = Inr x2 \<and>
      World_destroyEntity x2 3 = Inr x3 \<and>
      systems w2' = [(''S'', 2), (''T'', 1)] \<and> length (systemObjects w2') = 3 \<and>
      enabled (systemObjects w2' ! 2) \<and> hook (systemObjects w2' ! 2) = 3 \<and>
      systems x1 = [(''S'', 2), (''T'', 1)] \<and> length (systemObjects x1) = 3 \<and>
      enabled (systemObjects x1 ! 1) \<and> hook (systemObjects x1 ! 1) = 2 \<and>
      systems x2 = [(''S'', 2), (''T'', 1)] \<and> length (systemObjects x2) = 3 \<and>
      enabled (systemObjects x2 ! 2) \<and> hook (systemObjects x2 ! 2) = 3 \<and>
      World_isAlive x3 1 = Inr True \<and> World_isAlive x3 2 = Inr False \<and>
      World_isAlive x3 3 = Inr False \<and> getEntityCount x3 = 0"
    by (simp add: world_eval ids_from_Cons [of 3] isAlive_alt
        getEntityCount_def getLivingCount_def)
  then obtain w w1 w1' w2 w2' x1 x2 x3 :: "(nat, unit, Entity) World" where
    r: "world_run [RegisterComponent 0, CreateEntity, AddComponent 0 1 (), CreateEntity,
                   AddComponent 0 2 (), CreateEntity, AddComponent 0 3 ()] World_new = Inr w"
    and f: "registerSystem w 1 ''S'' 1 = (0, w1)"
    and b: "world_run [RegisterSystem 2 ''T'' 1] w1 = Inr w1'"
    and s: "registerSystem w1' 3 ''S'' 1 = (2, w2)"
    and a: "world_run [RegisterComponent 1] w2 = Inr w2'"
    and fresh: "''S'' \<notin> set (systemOrder w)"
    and order: "systemOrder w2' = [''S'', ''T'', ''S'']"
    and n: "getEntityCount w2' = 3"
    and d: "World_destroyEntity w2' 3 = Inr x1" "World_destroyEntity x1 2 = Inr x2"
      "World_destroyEntity x2 3 = Inr x3"
    and l0: "systems w2' = [(''S'', 2), (''T'', 1)]" "length (systemObjects w2') = 3"
      "enabled (systemObjects w2' ! 2)" "hook (systemObjects w2' ! 2) = 3"
    and l1: "systems x1 = [(''S'', 2), (''T'', 1)]" "length (systemObjects x1) = 3"
      "enabled (systemObjects x1 ! 1)" "hook (systemObjects x1 ! 1) = 2"
    and l2: "systems x2 = [(''S'', 2), (''T'', 1)]" "length (systemObjects x2) = 3"
      "enabled (systemObjects x2 ! 2)" "hook (systemObjects x2 ! 2) = 3"
    and alive: "World_isAlive x3 1 = Inr True" "World_isAlive x3 2 = Inr False"
      "World_isAlive x3 3 = Inr False" "getEntityCount x3 = 0"
    by blast
  have upd: "updateSystems ?run () w2' = Inr (x3, [2, 1, 2])"
    using order d l0 l1 l2 by (simp add: updateSystems_def)
  have nb: "\<forall>x \<in> set [RegisterSystem 2 ''T'' 1 :: (nat, unit, Entity) world_op]. \<not> registers ''S'' x"
    by simp
  have na: "\<forall>x \<in> set [RegisterComponent 1 :: (nat, unit, Entity) world_op]. \<not> registers ''S'' x"
    by simp
  from duplicate_name_updates_second_twice [OF kd r f b nb s a na, of "()"] fresh
  have g: "getSystem w2' ''S'' = Some 2" "hook (systemObjects w2' ! 0) = 1"
    "hook (systemObjects w2' ! 2) = 3"
    and ex: "\<exists>v called. updateSystems ?run () w2' = Inr (v, called) \<and>
            v = call_hooks ?run () w2' called \<and> count_list called 2 = 2 \<and> 0 \<notin> set called"
    by blast+
  from ex obtain v called where
    c: "updateSystems ?run () w2' = Inr (v, called)" "v = call_hooks ?run () w2' called"
      "count_list called 2 = 2" "0 \<notin> set called"
    by blast
  from c(1) upd have vc: "v = x3" "called = [2, 1, 2]"
    by (simp_all only: sum.inject prod.inject)
  from c(2,3,4) have h: "x3 = call_hooks ?run () w2' [2, 1, 2]"
    "count_list [2, 1, 2 :: nat] 2 = 2" "0 \<notin> set [2, 1, 2 :: nat]"
    unfolding vc .
  have part1: "\<exists>w w1 w1' w2 w2' x1 x2 w3 called.
      world_run [RegisterComponent 0, CreateEntity, AddComponent 0 1 (), CreateEntity,
                 AddComponent 0 2 (), CreateEntity, AddComponent 0 3 ()]
        (World_new :: (nat, unit, Entity) World) = Inr w \<and>
      registerSystem w 1 ''S'' 1 = (0, w1) \<and>
      world_run [RegisterSystem 2 ''T'' 1] w1 = Inr w1' \<and>
      (\<forall>x \<in> set [RegisterSystem 2 ''T'' 1 :: (nat, unit, Entity) world_op]. \<not> registers ''S'' x) \<and>
      registerSystem w1' 3 ''S'' 1 = (2, w2) \<and>
      world_run [RegisterComponent 1] w2 = Inr w2' \<and>
      (\<forall>x \<in> set [RegisterComponent 1 :: (nat, unit, Entity) world_op]. \<not> registers ''S'' x) \<and>
      ''S'' \<notin> set (systemOrder w) \<and>
      getSystem w2' ''S'' = Some 2 \<and> systemOrder w2' = [''S'', ''T'', ''S''] \<and>
      hook (systemObjects w2' ! 0) = 1 \<and> hook (systemObjects w2' ! 2) = 3 \<and>
      updateSystems ?run () w2' = Inr (w3, called) \<and>
      called = [2, 1, 2] \<and> count_list called 2 = 2 \<and> 0 \<notin> set called \<and>
      w3 = call_hooks ?run () w2' called \<and>
      World_destroyEntity w2' 3 = Inr x1 \<and> World_destroyEntity x1 2 = Inr x2 \<and>
      World_destroyEntity x2 3 = Inr w3 \<and>
      World_isAlive w3 1 = Inr True \<and> World_isAlive w3 2 = Inr False \<and>
      World_isAlive w3 3 = Inr False \<and> getEntityCount w2' = 3 \<and> getEntityCount w3 = 0"
    by (rule exI [of _ w], rule exI [of _ w1], rule exI [of _ w1'], rule exI [of _ w2],
        rule exI [of _ w2'], rule exI [of _ x1], rule exI [of _ x2], rule exI [of _ x3],
        rule exI [of _ "[2, 1, 2]"], intro conjI)
      (fact r f b nb s a na fresh g order upd h d alive n refl)+
  have "\<exists>v v1 v2 y1 y2.
      world_run [RegisterComponent 0, CreateEntity, AddComponent 0 1 (), CreateEntity,
                 AddComponent 0 2 ()]
        (World_new :: (nat, unit, Entity) World) = Inr v \<and>
      registerSystem v 1 ''S'' 1 = (0, v1) \<and>
      registerSystem v1 2 ''S'' 1 = (1, v2) \<and>
      systemOrder v2 = [''S'', ''S''] \<and>
      World_destroyEntity v2 2 = Inr y1 \<and> World_destroyEntity y1 2 = Inr y2 \<and>
      World_isAlive y2 1 = Inr True \<and> World_isAlive y2 2 = Inr False \<and>
      getEntityCount v2 = 2 \<and> getEntityCount y2 = 0"
    by (simp add: world_eval isAlive_alt getEntityCount_def getLivingCount_def)
  then obtain v v1 v2 y1 y2 :: "(nat, unit, Entity) World" where
    r': "world_run [RegisterComponent 0, CreateEntity, AddComponent 0 1 (), CreateEntity,
                    AddComponent 0 2 ()] World_new = Inr v"
    and f': "registerSystem v 1 ''S'' 1 = (0, v1)"
    and s': "registerSystem v1 2 ''S'' 1 = (1, v2)"
    and order': "systemOrder v2 = [''S'', ''S'']"
    and d': "World_destroyEntity v2 2 = Inr y1" "World_destroyEntity y1 2 = Inr y2"
    and alive': "World_isAlive y2 1 = Inr True" "World_isAlive y2 2 = Inr False"
      "getEntityCount v2 = 2" "getEntityCount y2 = 0"
    by blast
  have e1: "world_run [] v1 = Inr v1" and e2: "world_run [] v2 = Inr v2"
    by simp_all
  have ne: "\<forall>x \<in> set ([] :: (nat, unit, Entity) world_op list). \<not> registers ''S'' x"
    by simp
  from duplicate_name_updates_second_twice [OF kd r' f' e1 ne s' e2 ne, of "()"] order'
  obtain v3 called' where
    u': "updateSystems ?run () v2 = Inr (v3, called')" "called' = [1, 1]"
      "v3 = ?run 2 1 () (?run 2 1 () v2)"
    by blast
  from u'(3) d' have v3: "v3 = y2" by simp
  have part2: "\<exists>w w1 w2 x1 w3 called.
      world_run [RegisterComponent 0, CreateEntity, AddComponent 0 1 (), CreateEntity,
                 AddComponent 0 2 ()]
        (World_new :: (nat, unit, Entity) World) = Inr w \<and>
      registerSystem w 1 ''S'' 1 = (0, w1) \<and>
      world_run [] w1 = Inr w1 \<and>
      registerSystem w1 2 ''S'' 1 = (1, w2) \<and>
      world_run [] w2 = Inr w2 \<and>
      systemOrder w2 = [''S'', ''S''] \<and>
      updateSystems ?run () w2 = Inr (w3, called) \<and>
      called = [1, 1] \<and>
      World_destroyEntity w2 2 = Inr x1 \<and> World_destroyEntity x1 2 = Inr w3 \<and>
      World_isAlive w3 1 = Inr True \<and> World_isAlive w3 2 = Inr False \<and>
      getEntityCount w2 = 2 \<and> getEntityCount w3 = 0"
    by (rule exI [of _ v], rule exI [of _ v1], rule exI [of _ v2], rule exI [of _ y1],
        rule exI [of _ y2], rule exI [of _ called'], intro conjI)
      (fact r' f' e1 s' e2 order' u'(1,2) [unfolded v3] d' alive')+
  show ?thesis
    by (intro conjI) (fact kd part1 part2)+
qed

subsection \<open>The systems of a reachable world\<close>





end
